theory Spec2Isabelle
  imports Main "HOL-Library.Word" "HOL-Library.AList" "HOL-Library.Multiset"
begin

section \<open>The relay server (server.js)\<close>

subsection \<open>Data model\<close>

text \<open>
  Socket ids and room codes are JavaScript strings, \<open>Date.now()\<close> is an integer number
  of milliseconds. The characters that matter to the server are ASCII; every other
  character of a room code is removed by \<open>sanitizeRoomId\<close> before it is looked at.
\<close>

type_synonym socket_id = string
type_synonym room_id = string
type_synonym millis = int

definition RATE_LIMIT_WINDOW :: millis where
  "RATE_LIMIT_WINDOW = 60000"

definition MAX_REQUESTS_PER_WINDOW :: nat where
  "MAX_REQUESTS_PER_WINDOW = 30"

definition MAX_ROOM_SIZE :: nat where
  "MAX_ROOM_SIZE = 10"

text \<open>
  A JavaScript \<open>Set\<close> keeps its elements in insertion order and \<open>Array.from\<close> reads them
  in that order: a list, to which \<open>add\<close> appends an element that is not yet there.
\<close>

definition set_add :: "'a \<Rightarrow> 'a list \<Rightarrow> 'a list" where
  "set_add x xs = (if x \<in> set xs then xs else xs @ [x])"

definition set_delete :: "'a \<Rightarrow> 'a list \<Rightarrow> 'a list" where
  "set_delete x xs = removeAll x xs"

text \<open>
  A JavaScript \<open>Map\<close> iterates in insertion order: an association list. \<open>Map.set\<close>
  replaces the value of a key in place or appends a new entry (\<open>AList.update\<close>),
  \<open>Map.delete\<close> drops the entry (\<open>AList.delete\<close>), \<open>Map.get\<close> is \<open>map_of\<close>.
\<close>

type_synonym room_map = "(room_id \<times> socket_id list) list"

definition rooms_has :: "room_map \<Rightarrow> room_id \<Rightarrow> bool" where
  "rooms_has rs r \<longleftrightarrow> map_of rs r \<noteq> None"

definition rooms_get :: "room_map \<Rightarrow> room_id \<Rightarrow> socket_id list" where
  "rooms_get rs r = (case map_of rs r of None \<Rightarrow> [] | Some us \<Rightarrow> us)"

text \<open>
  The state of the process: the two module-level maps \<open>rooms\<close> and \<open>rateLimit\<close>, and
  socket.io's own room membership (\<open>socket.join\<close>, \<open>socket.leave\<close>), which is what
  \<open>socket.to(room)\<close> and \<open>io.to(room)\<close> address. It is kept as the set of pairs
  (room name, socket id).
\<close>

record server_state =
  rooms :: room_map
  rateLimit :: "socket_id \<rightharpoonup> millis list"
  sio :: "(room_id \<times> socket_id) set"

definition init_state :: server_state where
  "init_state = \<lparr> rooms = [], rateLimit = Map.empty, sio = {} \<rparr>"

definition sio_members :: "(room_id \<times> socket_id) set \<Rightarrow> room_id \<Rightarrow> socket_id set" where
  "sio_members a r = snd ` Set.filter (\<lambda>p. fst p = r) a"

text \<open>What the server sends to clients.\<close>

datatype message =
    Error string
  | UsersInRoom "socket_id list"
  | UserJoined socket_id
  | RoomStatus room_id nat "socket_id list"
  | UserLeft socket_id
  | OfferMsg string socket_id
  | AnswerMsg string socket_id
  | IceCandidateMsg string socket_id
  | FileInfoMsg string string nat string socket_id
  | FileChunkMsg string nat string bool socket_id
  | FileCompleteMsg string socket_id
  | Pong millis millis

text \<open>The sender tag of a relayed message.\<close>

fun sender_of :: "message \<Rightarrow> socket_id option" where
  "sender_of (OfferMsg _ s) = Some s"
| "sender_of (AnswerMsg _ s) = Some s"
| "sender_of (IceCandidateMsg _ s) = Some s"
| "sender_of (FileInfoMsg _ _ _ _ s) = Some s"
| "sender_of (FileChunkMsg _ _ _ _ s) = Some s"
| "sender_of (FileCompleteMsg _ s) = Some s"
| "sender_of (UserJoined s) = Some s"
| "sender_of (UserLeft s) = Some s"
| "sender_of _ = None"

text \<open>One \<open>emit\<close>: the sockets it is delivered to, and the message.\<close>

type_synonym emission = "socket_id set \<times> message"

text \<open>\<open>socket.emit\<close>, \<open>socket.to(room).emit\<close> and \<open>io.to(room).emit\<close> of socket.io.\<close>

definition socket_emit :: "socket_id \<Rightarrow> message \<Rightarrow> emission" where
  "socket_emit sid m = ({sid}, m)"

definition socket_to :: "(room_id \<times> socket_id) set \<Rightarrow> socket_id \<Rightarrow> room_id \<Rightarrow> message \<Rightarrow> emission" where
  "socket_to a sid r m = (sio_members a r - {sid}, m)"

definition io_to :: "(room_id \<times> socket_id) set \<Rightarrow> room_id \<Rightarrow> message \<Rightarrow> emission" where
  "io_to a r m = (sio_members a r, m)"

text \<open>
  What a client sends. The argument of \<open>join-room\<close> is checked by the server with
  \<open>typeof\<close>, so it is any JavaScript value: a string, or something else.
\<close>

datatype js_value = JString string | JOther

datatype client_msg =
    JoinRoom js_value
  | LeaveRoom room_id
  | Offer socket_id string
  | Answer socket_id string
  | IceCandidate socket_id string
  | FileInfo room_id string string nat string
  | FileChunk room_id string nat string bool
  | FileComplete room_id string
  | Ping millis

subsection \<open>Security helper functions\<close>

text \<open>\<open>rateLimit.get(socketId) || []\<close>\<close>

definition requests_of :: "(socket_id \<rightharpoonup> millis list) \<Rightarrow> socket_id \<Rightarrow> millis list" where
  "requests_of rl socketId = (case rl socketId of None \<Rightarrow> [] | Some ts \<Rightarrow> ts)"

definition checkRateLimit ::
  "millis \<Rightarrow> socket_id \<Rightarrow> (socket_id \<rightharpoonup> millis list) \<Rightarrow> bool \<times> (socket_id \<rightharpoonup> millis list)" where
  "checkRateLimit now socketId rl =
     (let userRequests = requests_of rl socketId;
          validRequests = filter (\<lambda>time. now - time < RATE_LIMIT_WINDOW) userRequests
      in if length validRequests \<ge> MAX_REQUESTS_PER_WINDOW then (False, rl)
         else (True, rl(socketId \<mapsto> validRequests @ [now])))"

text \<open>A connection's attempts at the given times, one after the other.\<close>

fun checkRateLimit_seq ::
  "millis list \<Rightarrow> socket_id \<Rightarrow> (socket_id \<rightharpoonup> millis list) \<Rightarrow> bool list" where
  "checkRateLimit_seq [] socketId rl = []"
| "checkRateLimit_seq (now # ts) socketId rl =
     fst (checkRateLimit now socketId rl)
     # checkRateLimit_seq ts socketId (snd (checkRateLimit now socketId rl))"

text \<open>The character class \<open>[A-Z0-9]\<close>.\<close>

definition isUpperAlnum :: "char \<Rightarrow> bool" where
  "isUpperAlnum c \<longleftrightarrow>
     (65 \<le> (of_char c :: nat) \<and> (of_char c :: nat) \<le> 90) \<or>
     (48 \<le> (of_char c :: nat) \<and> (of_char c :: nat) \<le> 57)"

text \<open>
  \<open>String.prototype.toUpperCase\<close> on ASCII: a lowercase letter loses bit 5. In
  \<open>sanitizeRoomId\<close> it only ever sees characters of \<open>[A-Z0-9]\<close>.
\<close>

definition toUpperCase :: "string \<Rightarrow> string" where
  "toUpperCase s =
     map (\<lambda>c. if 97 \<le> (of_char c :: nat) \<and> (of_char c :: nat) \<le> 122
               then (case c of Char b0 b1 b2 b3 b4 b5 b6 b7 \<Rightarrow> Char b0 b1 b2 b3 b4 False b6 b7)
               else c) s"

text \<open>\<open>/^[A-Z0-9]{6}$/.test(roomId)\<close>\<close>

definition validateRoomId :: "string \<Rightarrow> bool" where
  "validateRoomId roomId \<longleftrightarrow> length roomId = 6 \<and> list_all isUpperAlnum roomId"

text \<open>\<open>roomId.replace(/[^A-Z0-9]/g, "").substring(0, 6).toUpperCase()\<close>, in this order.\<close>

definition sanitizeRoomId :: "string \<Rightarrow> string" where
  "sanitizeRoomId roomId = toUpperCase (take 6 (filter isUpperAlnum roomId))"

subsection \<open>Event handlers\<close>

definition join_room ::
  "millis \<Rightarrow> socket_id \<Rightarrow> js_value \<Rightarrow> server_state \<Rightarrow> server_state \<times> emission list" where
  "join_room now sid roomId st =
     (case checkRateLimit now sid (rateLimit st) of (admitted, rl) \<Rightarrow>
        let st1 = st\<lparr>rateLimit := rl\<rparr> in
        if \<not> admitted then
          (st1, [socket_emit sid (Error ''Too many requests. Please wait.'')])
        else
          (case roomId of
             JOther \<Rightarrow> (st1, [socket_emit sid (Error ''Invalid room code format.'')])
           | JString s \<Rightarrow>
               if s = [] then (st1, [socket_emit sid (Error ''Invalid room code format.'')])
               else
                 let sanitizedRoomId = sanitizeRoomId s in
                 if \<not> validateRoomId sanitizedRoomId then
                   (st1, [socket_emit sid (Error ''Room code must be 6 alphanumeric characters.'')])
                 else if rooms_has (rooms st1) sanitizedRoomId \<and>
                         length (rooms_get (rooms st1) sanitizedRoomId) \<ge> MAX_ROOM_SIZE then
                   (st1, [socket_emit sid (Error ''Room is full. Maximum 10 users allowed.'')])
                 else
                   let a = insert (sanitizedRoomId, sid) (sio st1);
                       rs1 = (if \<not> rooms_has (rooms st1) sanitizedRoomId
                              then AList.update sanitizedRoomId [] (rooms st1) else rooms st1);
                       rs2 = AList.update sanitizedRoomId
                               (set_add sid (rooms_get rs1 sanitizedRoomId)) rs1;
                       usersInRoom = filter (\<lambda>i. i \<noteq> sid) (rooms_get rs2 sanitizedRoomId);
                       totalUsers = length (rooms_get rs2 sanitizedRoomId)
                   in (st1\<lparr>rooms := rs2, sio := a\<rparr>,
                       [socket_emit sid (UsersInRoom usersInRoom),
                        socket_to a sid sanitizedRoomId (UserJoined sid),
                        io_to a sanitizedRoomId
                          (RoomStatus sanitizedRoomId totalUsers (rooms_get rs2 sanitizedRoomId))])))"

text \<open>
  \<open>leave-room\<close>. The keys of \<open>rooms\<close> are strings, so an argument that is not a string
  is in no room and the handler does nothing for it; the argument is taken as a string.
\<close>

definition leave_room :: "socket_id \<Rightarrow> room_id \<Rightarrow> server_state \<Rightarrow> server_state \<times> emission list" where
  "leave_room sid roomId st =
     (if rooms_has (rooms st) roomId \<and> sid \<in> set (rooms_get (rooms st) roomId) then
        let users = set_delete sid (rooms_get (rooms st) roomId);
            rs1 = AList.update roomId users (rooms st);
            a = sio st - {(roomId, sid)};
            rs2 = (if length users = 0 then AList.delete roomId rs1 else rs1)
        in (st\<lparr>rooms := rs2, sio := a\<rparr>, [socket_to a sid roomId (UserLeft sid)])
      else (st, []))"

text \<open>
  The loop of the \<open>disconnect\<close> handler over \<open>rooms.entries()\<close>. Each pass changes the
  entry it visits only, so the loop is a recursion over the entries.
\<close>

fun disconnect_rooms ::
  "(room_id \<times> socket_id) set \<Rightarrow> socket_id \<Rightarrow> room_map \<Rightarrow> room_map \<times> emission list" where
  "disconnect_rooms a sid [] = ([], [])"
| "disconnect_rooms a sid ((roomId, users) # rest) =
     (case disconnect_rooms a sid rest of (rest', out) \<Rightarrow>
        if sid \<in> set users then
          let users' = set_delete sid users in
          (if length users' = 0 then rest' else (roomId, users') # rest',
           io_to a roomId (UserLeft sid) # out)
        else ((roomId, users) # rest', out))"

text \<open>
  socket.io takes a closing socket out of all its rooms before it fires \<open>disconnect\<close>.
\<close>

definition sio_leave_all :: "socket_id \<Rightarrow> (room_id \<times> socket_id) set \<Rightarrow> (room_id \<times> socket_id) set" where
  "sio_leave_all sid a = Set.filter (\<lambda>(r, s). s \<noteq> sid) a"

definition disconnect :: "socket_id \<Rightarrow> server_state \<Rightarrow> server_state \<times> emission list" where
  "disconnect sid st =
     (let a = sio_leave_all sid (sio st) in
      case disconnect_rooms a sid (rooms st) of (rs, out) \<Rightarrow>
        (st\<lparr>rooms := rs, sio := a\<rparr>, out))"

text \<open>On connection socket.io puts the socket into the room named by its own id.\<close>

definition connect :: "socket_id \<Rightarrow> server_state \<Rightarrow> server_state" where
  "connect sid st = st\<lparr>sio := insert (sid, sid) (sio st)\<rparr>"

text \<open>The \<open>setInterval\<close> callback: the room cleanup and the rate limit cleanup.\<close>

definition sweep :: "millis \<Rightarrow> server_state \<Rightarrow> server_state" where
  "sweep now st =
     st\<lparr>rooms := filter (\<lambda>(roomId, users). length users \<noteq> 0) (rooms st),
        rateLimit := (\<lambda>socketId.
          case rateLimit st socketId of
            None \<Rightarrow> None
          | Some requests \<Rightarrow>
              let validRequests = filter (\<lambda>time. now - time < RATE_LIMIT_WINDOW) requests
              in if length validRequests = 0 then None else Some validRequests)\<rparr>"

text \<open>The handlers that only forward, and the dispatch on the event name.\<close>

fun handle ::
  "millis \<Rightarrow> socket_id \<Rightarrow> client_msg \<Rightarrow> server_state \<Rightarrow> server_state \<times> emission list" where
  "handle now sid (JoinRoom roomId) st = join_room now sid roomId st"
| "handle now sid (LeaveRoom roomId) st = leave_room sid roomId st"
| "handle now sid (Offer target offer) st =
     (st, [socket_to (sio st) sid target (OfferMsg offer sid)])"
| "handle now sid (Answer target answer) st =
     (st, [socket_to (sio st) sid target (AnswerMsg answer sid)])"
| "handle now sid (IceCandidate target candidate) st =
     (st, [socket_to (sio st) sid target (IceCandidateMsg candidate sid)])"
| "handle now sid (FileInfo room fileId fileName fileSize mimeType) st =
     (st, [socket_to (sio st) sid room (FileInfoMsg fileId fileName fileSize mimeType sid)])"
| "handle now sid (FileChunk room fileId chunkIndex dat isLast) st =
     (st, [socket_to (sio st) sid room (FileChunkMsg fileId chunkIndex dat isLast sid)])"
| "handle now sid (FileComplete room fileId) st =
     (st, [socket_to (sio st) sid room (FileCompleteMsg fileId sid)])"
| "handle now sid (Ping timestamp) st = (st, [socket_emit sid (Pong timestamp now)])"

text \<open>Everything that can happen to the server, and a run of such events.\<close>

datatype event =
    Connect socket_id
  | Receive socket_id client_msg
  | Disconnect socket_id
  | Sweep

fun step :: "millis \<times> event \<Rightarrow> server_state \<Rightarrow> server_state \<times> emission list" where
  "step (now, Connect sid) st = (connect sid st, [])"
| "step (now, Receive sid m) st = handle now sid m st"
| "step (now, Disconnect sid) st = disconnect sid st"
| "step (now, Sweep) st = (sweep now st, [])"

fun run :: "(millis \<times> event) list \<Rightarrow> server_state \<Rightarrow> server_state" where
  "run [] st = st"
| "run (e # es) st = run es (fst (step e st))"

text \<open>
  The invariant of the room registry: the keys of the map are distinct (it is a
  \<open>Map\<close>), and every room in it has a member, no member twice (it is a \<open>Set\<close>), and
  at most \<open>MAX_ROOM_SIZE\<close> members.
\<close>

definition room_invariant :: "room_map \<Rightarrow> bool" where
  "room_invariant rs \<longleftrightarrow>
     distinct (map fst rs) \<and>
     (\<forall>(r, us) \<in> set rs. us \<noteq> [] \<and> distinct us \<and> length us \<le> MAX_ROOM_SIZE)"

text \<open>The emissions of a run, in order.\<close>

fun run_out :: "(millis \<times> event) list \<Rightarrow> server_state \<Rightarrow> emission list" where
  "run_out [] st = []"
| "run_out (e # es) st = snd (step e st) @ run_out es (fst (step e st))"

text \<open>The messages that reach one socket, out of a list of emissions.\<close>

definition deliveries :: "socket_id \<Rightarrow> emission list \<Rightarrow> message list" where
  "deliveries r out = map snd (filter (\<lambda>(to, m). r \<in> to) out)"

section \<open>The client (public/app-fast.js)\<close>

subsection \<open>Base64: the browser's btoa and atob\<close>

text \<open>
  A \<open>Uint8Array\<close> is a list of bytes. \<open>String.fromCharCode(...bytes)\<close> is the string
  with these bytes as code units and \<open>charCodeAt\<close> reads them back, so such a binary
  string is kept as the byte list itself. \<open>btoa\<close> is RFC 4648 base64 with padding;
  \<open>atob\<close> is the forgiving decoder of the HTML standard: it drops ASCII whitespace,
  drops one or two trailing \<open>=\<close> when the length is a multiple of four, fails
  (InvalidCharacterError) when the length is then 1 modulo 4 or a character is outside
  the alphabet, and discards the bits left over in the last group.
\<close>

type_synonym byte = "8 word"

datatype error = InvalidCharacterError | RangeError

definition b64_alphabet :: string where
  "b64_alphabet = ''ABCDEFGHIJKLMNOPQRSTUVWXYZabcdefghijklmnopqrstuvwxyz0123456789+/''"

definition b64_char :: "nat \<Rightarrow> char" where
  "b64_char n = b64_alphabet ! n"

fun index_of :: "'a \<Rightarrow> 'a list \<Rightarrow> nat option" where
  "index_of c [] = None"
| "index_of c (x # xs) =
     (if c = x then Some 0 else (case index_of c xs of None \<Rightarrow> None | Some i \<Rightarrow> Some (Suc i)))"

definition b64_index :: "char \<Rightarrow> nat" where
  "b64_index c = (case index_of c b64_alphabet of None \<Rightarrow> 0 | Some i \<Rightarrow> i)"

fun btoa :: "byte list \<Rightarrow> string" where
  "btoa [] = []"
| "btoa [x] =
     [b64_char (unat x div 4), b64_char ((unat x mod 4) * 16), CHR ''='', CHR ''='']"
| "btoa [x, y] =
     [b64_char (unat x div 4), b64_char ((unat x mod 4) * 16 + unat y div 16),
      b64_char ((unat y mod 16) * 4), CHR ''='']"
| "btoa (x # y # z # rest) =
     [b64_char (unat x div 4), b64_char ((unat x mod 4) * 16 + unat y div 16),
      b64_char ((unat y mod 16) * 4 + unat z div 64), b64_char (unat z mod 64)] @ btoa rest"

definition isAsciiWhitespace :: "char \<Rightarrow> bool" where
  "isAsciiWhitespace c \<longleftrightarrow> (of_char c :: nat) \<in> {9, 10, 12, 13, 32}"

definition strip_padding :: "string \<Rightarrow> string" where
  "strip_padding d =
     (if 2 \<le> length d \<and> drop (length d - 2) d = ''=='' then take (length d - 2) d
      else if 1 \<le> length d \<and> drop (length d - 1) d = ''='' then take (length d - 1) d
      else d)"

fun decode_sextets :: "nat list \<Rightarrow> byte list" where
  "decode_sextets (a # b # c # d # rest) =
     [of_nat (a * 4 + b div 16), of_nat ((b mod 16) * 16 + c div 4), of_nat ((c mod 4) * 64 + d)]
     @ decode_sextets rest"
| "decode_sextets [a, b, c] = [of_nat (a * 4 + b div 16), of_nat ((b mod 16) * 16 + c div 4)]"
| "decode_sextets [a, b] = [of_nat (a * 4 + b div 16)]"
| "decode_sextets _ = []"

definition atob :: "string \<Rightarrow> error + byte list" where
  "atob dat =
     (let d1 = filter (\<lambda>c. \<not> isAsciiWhitespace c) dat;
          d2 = (if length d1 mod 4 = 0 then strip_padding d1 else d1)
      in if length d2 mod 4 = 1 then Inl InvalidCharacterError
         else if \<not> list_all (\<lambda>c. c \<in> set b64_alphabet) d2 then Inl InvalidCharacterError
         else Inr (decode_sextets (map b64_index d2)))"

subsection \<open>State of one client\<close>

text \<open>
  A file chosen for sending: \<open>file.name\<close>, \<open>file.type\<close> and its bytes; \<open>file.size\<close>
  is the number of bytes.
\<close>

record js_file =
  file_name :: string
  file_type :: string
  file_bytes :: "byte list"

text \<open>
  An entry of \<open>receivingFiles\<close>. \<open>chunks\<close> is a JavaScript array that may have holes:
  a list of options, \<open>None\<close> for an index never assigned. (\<open>startTime\<close> feeds the
  progress display only and is left out, as is the display.)
\<close>

record receiving_file =
  fileName :: string
  fileSize :: nat
  mimeType :: string
  chunks :: "byte list option list"
  receivedSize :: nat

text \<open>What \<open>createDownloadLink\<close> is given: the reconstructed artifact.\<close>

record download =
  dl_fileName :: string
  dl_blob :: "byte list"
  dl_type :: string
  dl_fileId :: string

text \<open>
  \<open>currentRoom\<close> is the room last joined; \<open>sendFile\<close> goes on only when peers are
  connected, which is after a join has set it.
\<close>

record client_state =
  currentRoom :: room_id
  connectedPeers :: "socket_id list"
  filesToSend :: "string \<rightharpoonup> js_file"
  receivingFiles :: "string \<rightharpoonup> receiving_file"
  downloads :: "download list"

definition fileChunkSize :: nat where
  "fileChunkSize = 65536"

subsection \<open>Sending\<close>

text \<open>
  \<open>sendNextChunk\<close> with the variables \<open>offset\<close> and \<open>chunkIndex\<close> it closes over. It
  reads \<open>file.slice(offset, offset + chunkSize)\<close>, emits the chunk, and either schedules
  itself again or emits \<open>file-complete\<close>. The result is the list of emitted messages.
\<close>

function sendNextChunk :: "room_id \<Rightarrow> string \<Rightarrow> byte list \<Rightarrow> nat \<Rightarrow> nat \<Rightarrow> client_msg list" where
  "sendNextChunk room fileId file offset chunkIndex =
     (let chunk = take fileChunkSize (drop offset file);
          chunkData = btoa chunk;
          msg = FileChunk room fileId chunkIndex chunkData (offset + fileChunkSize \<ge> length file)
      in if offset + fileChunkSize < length file
         then msg # sendNextChunk room fileId file (offset + fileChunkSize) (chunkIndex + 1)
         else [msg, FileComplete room fileId])"
  by pat_completeness auto
termination
  by (relation "measure (\<lambda>(room, fileId, file, offset, chunkIndex). length file - offset)")
     (auto simp: fileChunkSize_def)

declare sendNextChunk.simps [simp del]

text \<open>
  \<open>sendFile\<close>; the file id is \<open>Date.now().toString()\<close>, taken as an argument. The
  progress display and the \<open>activeTransfers\<close> bookkeeping emit nothing and are left out.
\<close>

definition sendFile :: "client_state \<Rightarrow> string \<Rightarrow> string \<Rightarrow> client_msg list" where
  "sendFile cl fileId name =
     (case filesToSend cl name of
        None \<Rightarrow> []
      | Some file \<Rightarrow>
          if length (connectedPeers cl) = 0 then []
          else FileInfo (currentRoom cl) fileId (file_name file) (length (file_bytes file))
                 (file_type file)
               # sendNextChunk (currentRoom cl) fileId (file_bytes file) 0 0)"

subsection \<open>Receiving\<close>

text \<open>
  \<open>array[i] = v\<close> on a JavaScript array: an index past the end extends the array and
  leaves holes in between.
\<close>

definition array_store :: "'a option list \<Rightarrow> nat \<Rightarrow> 'a \<Rightarrow> 'a option list" where
  "array_store xs i v =
     (if i < length xs then xs[i := Some v]
      else xs @ replicate (i - length xs) None @ [Some v])"

text \<open>\<open>target.set(src, offset)\<close> on a typed array raises RangeError when \<open>src\<close> does not fit.\<close>

definition uint8_set :: "byte list \<Rightarrow> byte list \<Rightarrow> nat \<Rightarrow> error + byte list" where
  "uint8_set target src offset =
     (if offset + length src > length target then Inl RangeError
      else Inr (take offset target @ src @ drop (offset + length src) target))"

definition handleFileInfo :: "string \<Rightarrow> string \<Rightarrow> nat \<Rightarrow> string \<Rightarrow> client_state \<Rightarrow> client_state" where
  "handleFileInfo fileId name sz mime cl =
     cl\<lparr>receivingFiles := (receivingFiles cl)(fileId \<mapsto>
          \<lparr>fileName = name, fileSize = sz, mimeType = mime, chunks = [], receivedSize = 0\<rparr>)\<rparr>"

definition handleFileChunk :: "string \<Rightarrow> nat \<Rightarrow> string \<Rightarrow> client_state \<Rightarrow> error + client_state" where
  "handleFileChunk fileId chunkIndex dat cl =
     (case receivingFiles cl fileId of
        None \<Rightarrow> Inr cl
      | Some fileInfo \<Rightarrow>
          (case atob dat of
             Inl e \<Rightarrow> Inl e
           | Inr bytes \<Rightarrow>
               Inr (cl\<lparr>receivingFiles := (receivingFiles cl)(fileId \<mapsto>
                     fileInfo\<lparr>chunks := array_store (chunks fileInfo) chunkIndex bytes,
                              receivedSize := receivedSize fileInfo + length bytes\<rparr>)\<rparr>)))"

text \<open>
  The two passes of \<open>handleFileComplete\<close> over \<open>chunks\<close>: \<open>reduce\<close> adds up the lengths
  and \<open>forEach\<close> copies each chunk to the running offset; both skip the holes.
\<close>

fun totalSize :: "byte list option list \<Rightarrow> nat \<Rightarrow> nat" where
  "totalSize [] sz = sz"
| "totalSize (None # cs) sz = totalSize cs sz"
| "totalSize (Some chunk # cs) sz = totalSize cs (sz + length chunk)"

fun copy_chunks :: "byte list option list \<Rightarrow> nat \<Rightarrow> byte list \<Rightarrow> error + byte list" where
  "copy_chunks [] offset completeFile = Inr completeFile"
| "copy_chunks (None # cs) offset completeFile = copy_chunks cs offset completeFile"
| "copy_chunks (Some chunk # cs) offset completeFile =
     (case uint8_set completeFile chunk offset of
        Inl e \<Rightarrow> Inl e
      | Inr completeFile' \<Rightarrow> copy_chunks cs (offset + length chunk) completeFile')"

definition handleFileComplete :: "string \<Rightarrow> client_state \<Rightarrow> error + client_state" where
  "handleFileComplete fileId cl =
     (case receivingFiles cl fileId of
        None \<Rightarrow> Inr cl
      | Some fileInfo \<Rightarrow>
          (case copy_chunks (chunks fileInfo) 0 (replicate (totalSize (chunks fileInfo) 0) 0) of
             Inl e \<Rightarrow> Inl e
           | Inr completeFile \<Rightarrow>
               Inr (cl\<lparr>downloads := downloads cl @
                        [\<lparr>dl_fileName = fileName fileInfo, dl_blob = completeFile,
                          dl_type = mimeType fileInfo, dl_fileId = fileId\<rparr>],
                      receivingFiles := (receivingFiles cl)(fileId := None)\<rparr>)))"

text \<open>
  The socket listeners of the client. A handler that throws leaves the state as it was
  before the event, and the next event is handled as usual.
\<close>

fun client_on :: "message \<Rightarrow> client_state \<Rightarrow> error + client_state" where
  "client_on (UsersInRoom users) cl = Inr (cl\<lparr>connectedPeers := fold set_add users []\<rparr>)"
| "client_on (UserJoined userId) cl = Inr (cl\<lparr>connectedPeers := set_add userId (connectedPeers cl)\<rparr>)"
| "client_on (UserLeft userId) cl = Inr (cl\<lparr>connectedPeers := set_delete userId (connectedPeers cl)\<rparr>)"
| "client_on (FileInfoMsg fileId name sz mime sender) cl = Inr (handleFileInfo fileId name sz mime cl)"
| "client_on (FileChunkMsg fileId chunkIndex dat isLast sender) cl = handleFileChunk fileId chunkIndex dat cl"
| "client_on (FileCompleteMsg fileId sender) cl = handleFileComplete fileId cl"
| "client_on _ cl = Inr cl"

definition client_step :: "message \<Rightarrow> client_state \<Rightarrow> client_state" where
  "client_step m cl = (case client_on m cl of Inl e \<Rightarrow> cl | Inr cl' \<Rightarrow> cl')"

definition client_run :: "message list \<Rightarrow> client_state \<Rightarrow> client_state" where
  "client_run ms cl = fold client_step ms cl"

section \<open>The HTTP surface (server.js, health-endpoint-addition.js)\<close>

text \<open>
  \<open>server.js\<close> sets up, in this order, the static files of \<open>public/\<close> and one route,
  \<open>GET /\<close>, which sends the index page. The handler of \<open>GET /health\<close> is in
  \<open>health-endpoint-addition.js\<close>, a snippet "to add after your existing routes in
  server.js"; \<open>server.js\<close> does not contain it and does not load the file.

  The directory \<open>public/\<close> is given as the set of request paths that name a file in
  it. \<open>process.uptime()\<close> is a JavaScript number that the handler passes on untouched,
  so its type is left open; \<open>process.memoryUsage().heapUsed\<close> is a number of bytes.
\<close>

record 'u process_reading =
  uptime_seconds :: 'u
  heapUsed :: nat

record 'u health_body =
  status :: string
  uptime :: 'u
  memory :: string

datatype 'u http_response =
    StaticFile string
  | IndexPage
  | Json "'u health_body"
  | NotFound

fun status_code :: "'u http_response \<Rightarrow> nat" where
  "status_code NotFound = 404"
| "status_code _ = 200"

text \<open>A natural number as JavaScript prints it.\<close>

fun decimal :: "nat \<Rightarrow> string" where
  "decimal n =
     (if n < 10 then [''0123456789'' ! n]
      else decimal (n div 10) @ [''0123456789'' ! (n mod 10)])"

declare decimal.simps [simp del]

text \<open>
  \<open>Math.round(p / q)\<close> for natural numbers \<open>p\<close> and \<open>q\<close>: the nearest integer, a half
  rounded up. The handler divides by 1024 twice, which is exact in floating point.
\<close>

definition math_round_quotient :: "nat \<Rightarrow> nat \<Rightarrow> nat" where
  "math_round_quotient p q = (2 * p + q) div (2 * q)"

text \<open>The handler of the snippet; \<open>res.json\<close> answers with status 200.\<close>

definition health :: "server_state \<Rightarrow> 'u process_reading \<Rightarrow> 'u http_response" where
  "health st env =
     Json \<lparr>status = ''healthy'', uptime = uptime_seconds env,
           memory = decimal (math_round_quotient (heapUsed env) (1024 * 1024)) @ ''MB''\<rparr>"

text \<open>\<open>GET path\<close> on the application of \<open>server.js\<close>, as it is and with the snippet added.\<close>

definition server_get ::
  "string set \<Rightarrow> server_state \<Rightarrow> 'u process_reading \<Rightarrow> string \<Rightarrow> 'u http_response" where
  "server_get public st env path =
     (if path \<in> public then StaticFile path
      else if path = ''/'' then IndexPage
      else NotFound)"

definition server_get_with_health ::
  "string set \<Rightarrow> server_state \<Rightarrow> 'u process_reading \<Rightarrow> string \<Rightarrow> 'u http_response" where
  "server_get_with_health public st env path =
     (if path \<in> public then StaticFile path
      else if path = ''/'' then IndexPage
      else if path = ''/health'' then health st env
      else NotFound)"

subsection \<open>Auxiliary notions for the statements\<close>

text \<open>The base64 text of \<open>btoa\<close> without its padding.\<close>

fun unpadded :: "byte list \<Rightarrow> string" where
  "unpadded [] = []"
| "unpadded [x] = [b64_char (unat x div 4), b64_char ((unat x mod 4) * 16)]"
| "unpadded [x, y] =
     [b64_char (unat x div 4), b64_char ((unat x mod 4) * 16 + unat y div 16),
      b64_char ((unat y mod 16) * 4)]"
| "unpadded (x # y # z # rest) =
     [b64_char (unat x div 4), b64_char ((unat x mod 4) * 16 + unat y div 16),
      b64_char ((unat y mod 16) * 4 + unat z div 64), b64_char (unat z mod 64)] @ unpadded rest"

text \<open>The room a file event names, and the message the server forwards it as.\<close>

fun file_room :: "client_msg \<Rightarrow> room_id option" where
  "file_room (FileInfo room fileId name sz mime) = Some room"
| "file_room (FileChunk room fileId chunkIndex dat isLast) = Some room"
| "file_room (FileComplete room fileId) = Some room"
| "file_room _ = None"

fun forwarded :: "socket_id \<Rightarrow> client_msg \<Rightarrow> message option" where
  "forwarded sid (FileInfo room fileId name sz mime) = Some (FileInfoMsg fileId name sz mime sid)"
| "forwarded sid (FileChunk room fileId chunkIndex dat isLast) =
     Some (FileChunkMsg fileId chunkIndex dat isLast sid)"
| "forwarded sid (FileComplete room fileId) = Some (FileCompleteMsg fileId sid)"
| "forwarded sid _ = None"

text \<open>The server handling the messages one socket sends, in order.\<close>

definition relay :: "millis \<Rightarrow> socket_id \<Rightarrow> client_msg list \<Rightarrow> server_state \<Rightarrow> emission list" where
  "relay now sid ms st = run_out (map (\<lambda>m. (now, Receive sid m)) ms) st"

text \<open>The room-broadcast messages: the relayed file events and the join and leave notices.\<close>

fun is_room_broadcast :: "message \<Rightarrow> bool" where
  "is_room_broadcast (FileInfoMsg fileId name sz mime s) = True"
| "is_room_broadcast (FileChunkMsg fileId chunkIndex dat isLast s) = True"
| "is_room_broadcast (FileCompleteMsg fileId s) = True"
| "is_room_broadcast (UserJoined s) = True"
| "is_room_broadcast (UserLeft s) = True"
| "is_room_broadcast _ = False"

text \<open>The chunks of an array in index order, holes skipped.\<close>

definition reassemble :: "byte list option list \<Rightarrow> byte list" where
  "reassemble cs = concat (map (\<lambda>c. case c of None \<Rightarrow> [] | Some chunk \<Rightarrow> chunk) cs)"

text \<open>The transfer and index a chunk message is for.\<close>

fun chunk_key :: "message \<Rightarrow> (string \<times> nat) option" where
  "chunk_key (FileChunkMsg fileId chunkIndex dat isLast sender) = Some (fileId, chunkIndex)"
| "chunk_key _ = None"

text \<open>The \<open>chunkIndex\<close> and \<open>isLast\<close> of the chunk messages among the emitted ones.\<close>

fun chunk_flags :: "client_msg list \<Rightarrow> (nat \<times> bool) list" where
  "chunk_flags [] = []"
| "chunk_flags (FileChunk room fileId chunkIndex dat isLast # ms) = (chunkIndex, isLast) # chunk_flags ms"
| "chunk_flags (m # ms) = chunk_flags ms"

text \<open>
  The registry agrees with socket.io: its keys are room codes, and for a room code the
  sockets socket.io holds in the room are the members the registry lists.
\<close>

definition registry_matches :: "server_state \<Rightarrow> bool" where
  "registry_matches st \<longleftrightarrow>
     room_invariant (rooms st) \<and>
     (\<forall>(r, us) \<in> set (rooms st). validateRoomId r \<and> (\<forall>s \<in> set us. (r, s) \<in> sio st)) \<and>
     (\<forall>(r, s) \<in> sio st. validateRoomId r \<longrightarrow> s \<in> set (rooms_get (rooms st) r))"

text \<open>
  socket.io's socket ids are 20 characters long, so none of them is a room code.
\<close>

definition socket_ids_ok :: "(millis \<times> event) list \<Rightarrow> bool" where
  "socket_ids_ok es \<longleftrightarrow>
     (\<forall>(now, e) \<in> set es. case e of Connect sid \<Rightarrow> \<not> validateRoomId sid | _ \<Rightarrow> True)"

section \<open>Properties of the relay server\<close>

lemma sio_members_eq: "sio_members a r = {s. (r, s) \<in> a}"
  by (auto simp: sio_members_def image_iff)

lemma sio_leave_all_iff: "(r, s) \<in> sio_leave_all sid a \<longleftrightarrow> (r, s) \<in> a \<and> s \<noteq> sid"
  by (simp add: sio_leave_all_def)

subsection \<open>The rate limiter\<close>

lemma checkRateLimit_fst:
  "fst (checkRateLimit now sid rl) \<longleftrightarrow>
     length (filter (\<lambda>t. now - RATE_LIMIT_WINDOW < t) (requests_of rl sid)) < MAX_REQUESTS_PER_WINDOW"
proof -
  have "(\<lambda>t. now - t < RATE_LIMIT_WINDOW) = (\<lambda>t. now - RATE_LIMIT_WINDOW < t)"
    by (rule ext) arith
  then show ?thesis
    by (simp add: checkRateLimit_def Let_def not_le)
qed

lemma checkRateLimit_admitted:
  assumes "fst (checkRateLimit now sid rl)"
  shows "snd (checkRateLimit now sid rl) =
           rl(sid \<mapsto> filter (\<lambda>t. now - t < RATE_LIMIT_WINDOW) (requests_of rl sid) @ [now])"
  using assms by (simp add: checkRateLimit_def Let_def split: if_splits)

lemma checkRateLimit_denied:
  assumes "\<not> fst (checkRateLimit now sid rl)"
  shows "snd (checkRateLimit now sid rl) = rl"
  using assms by (simp add: checkRateLimit_def Let_def split: if_splits)

lemma checkRateLimit_seq_burst:
  assumes "\<forall>t \<in> set (requests_of rl sid) \<union> set ts. lo \<le> t \<and> t < lo + RATE_LIMIT_WINDOW"
  shows "checkRateLimit_seq ts sid rl =
           map (\<lambda>i. length (requests_of rl sid) + i < MAX_REQUESTS_PER_WINDOW) [0..<length ts]"
  using assms
proof (induction ts arbitrary: rl)
  case Nil
  show ?case by simp
next
  case (Cons now ts)
  let ?cur = "requests_of rl sid"
  have keep: "filter (\<lambda>t. now - t < RATE_LIMIT_WINDOW) ?cur = ?cur"
  proof (rule filter_True, intro ballI)
    fix t assume "t \<in> set ?cur"
    with Cons.prems have "lo \<le> t" "now < lo + RATE_LIMIT_WINDOW" by auto
    then show "now - t < RATE_LIMIT_WINDOW" by arith
  qed
  show ?case
  proof (cases "length ?cur < MAX_REQUESTS_PER_WINDOW")
    case True
    then have adm: "checkRateLimit now sid rl = (True, rl(sid \<mapsto> ?cur @ [now]))"
      by (simp add: checkRateLimit_def Let_def keep)
    have req: "requests_of (rl(sid \<mapsto> ?cur @ [now])) sid = ?cur @ [now]"
      by (simp add: requests_of_def)
    have "\<forall>t \<in> set (requests_of (rl(sid \<mapsto> ?cur @ [now])) sid) \<union> set ts.
            lo \<le> t \<and> t < lo + RATE_LIMIT_WINDOW"
      using Cons.prems by (auto simp: req)
    note Cons.IH[OF this, unfolded req]
    then have "checkRateLimit_seq ts sid (rl(sid \<mapsto> ?cur @ [now])) =
            map (\<lambda>i. length ?cur + Suc i < MAX_REQUESTS_PER_WINDOW) [0..<length ts]"
      by (simp only: length_append list.size add_Suc_right add_0_right add_Suc One_nat_def)
    with True adm show ?thesis
      by (simp add: upt_conv_Cons map_Suc_upt[symmetric] del: upt_Suc)
  next
    case False
    then have den: "checkRateLimit now sid rl = (False, rl)"
      by (simp add: checkRateLimit_def Let_def keep)
    have "\<forall>t \<in> set ?cur \<union> set ts. lo \<le> t \<and> t < lo + RATE_LIMIT_WINDOW"
      using Cons.prems by auto
    from Cons.IH[OF this] False den show ?thesis
      by (simp add: upt_conv_Cons map_Suc_upt[symmetric] del: upt_Suc)
  qed
qed

lemma burst_31: "map (\<lambda>i. i < MAX_REQUESTS_PER_WINDOW) [0..<31] = replicate 30 True @ [False]"
  by code_simp

subsection \<open>The outcomes of a join\<close>

lemma join_room_rateLimit:
  "rateLimit (fst (join_room now sid roomId st)) = snd (checkRateLimit now sid (rateLimit st))"
proof (cases "checkRateLimit now sid (rateLimit st)")
  case (Pair admitted rl)
  then show ?thesis
    by (cases roomId) (simp_all add: join_room_def Let_def)
qed

lemma join_room_denied:
  assumes "\<not> fst (checkRateLimit now sid (rateLimit st))"
  shows "join_room now sid roomId st =
           (st\<lparr>rateLimit := snd (checkRateLimit now sid (rateLimit st))\<rparr>,
            [socket_emit sid (Error ''Too many requests. Please wait.'')])"
  using assms by (cases "checkRateLimit now sid (rateLimit st)") (simp add: join_room_def Let_def)

lemma join_room_invalid:
  assumes "fst (checkRateLimit now sid (rateLimit st))"
    and "roomId = JOther \<or> roomId = JString []"
  shows "join_room now sid roomId st =
           (st\<lparr>rateLimit := snd (checkRateLimit now sid (rateLimit st))\<rparr>,
            [socket_emit sid (Error ''Invalid room code format.'')])"
  using assms by (cases "checkRateLimit now sid (rateLimit st)") (auto simp add: join_room_def Let_def)

lemma join_room_malformed:
  assumes "fst (checkRateLimit now sid (rateLimit st))"
    and "roomId = JString s" "s \<noteq> []" "\<not> validateRoomId (sanitizeRoomId s)"
  shows "join_room now sid roomId st =
           (st\<lparr>rateLimit := snd (checkRateLimit now sid (rateLimit st))\<rparr>,
            [socket_emit sid (Error ''Room code must be 6 alphanumeric characters.'')])"
  using assms by (cases "checkRateLimit now sid (rateLimit st)") (simp add: join_room_def Let_def)

lemma join_room_full:
  assumes "fst (checkRateLimit now sid (rateLimit st))"
    and "roomId = JString s" "s \<noteq> []" "validateRoomId (sanitizeRoomId s)"
    and "rooms_has (rooms st) (sanitizeRoomId s)"
    and "MAX_ROOM_SIZE \<le> length (rooms_get (rooms st) (sanitizeRoomId s))"
  shows "join_room now sid roomId st =
           (st\<lparr>rateLimit := snd (checkRateLimit now sid (rateLimit st))\<rparr>,
            [socket_emit sid (Error ''Room is full. Maximum 10 users allowed.'')])"
  using assms by (cases "checkRateLimit now sid (rateLimit st)") (simp add: join_room_def Let_def)

lemma join_room_refused:
  assumes "\<not> fst (checkRateLimit now sid (rateLimit st)) \<or>
           (case roomId of
              JOther \<Rightarrow> True
            | JString s \<Rightarrow>
                s = [] \<or> \<not> validateRoomId (sanitizeRoomId s) \<or>
                (rooms_has (rooms st) (sanitizeRoomId s) \<and>
                 MAX_ROOM_SIZE \<le> length (rooms_get (rooms st) (sanitizeRoomId s))))"
  shows "\<exists>msg. snd (join_room now sid roomId st) = [({sid}, Error msg)] \<and>
               rooms (fst (join_room now sid roomId st)) = rooms st \<and>
               sio (fst (join_room now sid roomId st)) = sio st"
proof (cases "fst (checkRateLimit now sid (rateLimit st))")
  case False
  then show ?thesis by (simp add: join_room_denied socket_emit_def)
next
  case True
  show ?thesis
  proof (cases roomId)
    case JOther
    with True show ?thesis by (simp add: join_room_invalid socket_emit_def)
  next
    case (JString s)
    show ?thesis
    proof (cases "s = []")
      case True
      with \<open>fst (checkRateLimit now sid (rateLimit st))\<close> JString show ?thesis
        by (simp add: join_room_invalid socket_emit_def)
    next
      case nonempty: False
      show ?thesis
      proof (cases "validateRoomId (sanitizeRoomId s)")
        case False
        with True JString nonempty show ?thesis
          by (simp add: join_room_malformed socket_emit_def)
      next
        case valid: True
        with assms True JString nonempty
        have "rooms_has (rooms st) (sanitizeRoomId s)"
          "MAX_ROOM_SIZE \<le> length (rooms_get (rooms st) (sanitizeRoomId s))"
          by simp_all
        with True JString nonempty valid show ?thesis
          by (simp add: join_room_full socket_emit_def)
      qed
    qed
  qed
qed

text \<open>
  Claim C8. A join that is refused, because the rate limiter denies it, because the room
  code is missing, not a string or malformed, or because the room already holds
  \<open>MAX_ROOM_SIZE\<close> members, emits exactly one message, an error, to the requesting
  socket alone; the room registry and the socket.io memberships (hence the connection
  of the socket) are as before.
\<close>

theorem join_rejected_effects:
  assumes "\<not> fst (checkRateLimit now sid (rateLimit st)) \<or>
           (case roomId of
              JOther \<Rightarrow> True
            | JString s \<Rightarrow>
                s = [] \<or> \<not> validateRoomId (sanitizeRoomId s) \<or>
                (rooms_has (rooms st) (sanitizeRoomId s) \<and>
                 MAX_ROOM_SIZE \<le> length (rooms_get (rooms st) (sanitizeRoomId s))))"
  shows "\<exists>msg. snd (join_room now sid roomId st) = [({sid}, Error msg)] \<and>
               rooms (fst (join_room now sid roomId st)) = rooms st \<and>
               sio (fst (join_room now sid roomId st)) = sio st"
  using assms by (rule join_room_refused)

subsection \<open>Admission and the join handler\<close>

text \<open>
  Claim C4. An attempt at time \<open>now\<close> is admitted exactly when fewer than 30 of the
  connection's recorded timestamps are less than 60000 ms old (\<open>now - 60000 < t\<close>); an
  admitted attempt is recorded after the timestamps that are still in the window; a
  denied one leaves the record as it was, and the join handler answers it with the
  rate limit error. Hence, of 31 attempts of a connection without a record whose times
  lie within less than 60 seconds, the first 30 are admitted and the 31st is denied.
\<close>

theorem rate_limit_window:
  "(fst (checkRateLimit now sid rl) \<longleftrightarrow>
      length (filter (\<lambda>t. now - 60000 < t) (requests_of rl sid)) < 30) \<and>
   (fst (checkRateLimit now sid rl) \<longrightarrow>
      requests_of (snd (checkRateLimit now sid rl)) sid =
        filter (\<lambda>t. now - 60000 < t) (requests_of rl sid) @ [now]) \<and>
   (\<not> fst (checkRateLimit now sid rl) \<longrightarrow> snd (checkRateLimit now sid rl) = rl) \<and>
   (requests_of rl sid = [] \<and> length ts = 31 \<and> (\<forall>t \<in> set ts. lo \<le> t \<and> t < lo + 60000) \<longrightarrow>
      checkRateLimit_seq ts sid rl = replicate 30 True @ [False]) \<and>
   (\<not> fst (checkRateLimit now sid (rateLimit st)) \<longrightarrow>
      snd (join_room now sid roomId st) = [({sid}, Error ''Too many requests. Please wait.'')])"
proof (intro conjI impI)
  show "fst (checkRateLimit now sid rl) \<longleftrightarrow>
      length (filter (\<lambda>t. now - 60000 < t) (requests_of rl sid)) < 30"
    using checkRateLimit_fst[of now sid rl]
    by (simp add: RATE_LIMIT_WINDOW_def MAX_REQUESTS_PER_WINDOW_def)
next
  assume "fst (checkRateLimit now sid rl)"
  moreover have "(\<lambda>t. now - t < RATE_LIMIT_WINDOW) = (\<lambda>t. now - 60000 < t)"
    by (rule ext) (simp add: RATE_LIMIT_WINDOW_def, arith)
  ultimately show "requests_of (snd (checkRateLimit now sid rl)) sid =
        filter (\<lambda>t. now - 60000 < t) (requests_of rl sid) @ [now]"
    by (simp add: checkRateLimit_admitted requests_of_def)
next
  assume "\<not> fst (checkRateLimit now sid rl)"
  then show "snd (checkRateLimit now sid rl) = rl" by (rule checkRateLimit_denied)
next
  assume a: "requests_of rl sid = [] \<and> length ts = 31 \<and> (\<forall>t \<in> set ts. lo \<le> t \<and> t < lo + 60000)"
  then have "\<forall>t \<in> set (requests_of rl sid) \<union> set ts. lo \<le> t \<and> t < lo + RATE_LIMIT_WINDOW"
    by (simp add: RATE_LIMIT_WINDOW_def)
  from checkRateLimit_seq_burst[OF this] a
  show "checkRateLimit_seq ts sid rl = replicate 30 True @ [False]"
    by (simp add: burst_31)
next
  assume "\<not> fst (checkRateLimit now sid (rateLimit st))"
  then show "snd (join_room now sid roomId st) = [({sid}, Error ''Too many requests. Please wait.'')]"
    by (simp add: join_room_denied socket_emit_def)
qed

theorem rate_limit_window_witness:
  "fst (checkRateLimit 100 ''s'' Map.empty) \<and>
   requests_of (snd (checkRateLimit 100 ''s'' Map.empty)) ''s'' = [100] \<and>
   \<not> fst (checkRateLimit 100 ''s'' [''s'' \<mapsto> replicate 30 99]) \<and>
   snd (checkRateLimit 100 ''s'' [''s'' \<mapsto> replicate 30 99]) = [''s'' \<mapsto> replicate 30 99] \<and>
   checkRateLimit_seq (map int [0..<31]) ''s'' Map.empty = replicate 30 True @ [False] \<and>
   snd (join_room 100 ''s'' (JString ''ABC123'') (init_state\<lparr>rateLimit := [''s'' \<mapsto> replicate 30 99]\<rparr>))
     = [({''s''}, Error ''Too many requests. Please wait.'')]"
proof -
  have adm: "fst (checkRateLimit 100 ''s'' Map.empty)"
    by (simp add: checkRateLimit_def requests_of_def MAX_REQUESTS_PER_WINDOW_def)
  have den: "\<not> fst (checkRateLimit 100 ''s'' [''s'' \<mapsto> replicate 30 99])"
    by (simp add: checkRateLimit_def requests_of_def MAX_REQUESTS_PER_WINDOW_def RATE_LIMIT_WINDOW_def)
  have burst: "requests_of Map.empty ''s'' = [] \<and> length (map int [0..<31]) = 31 \<and>
      (\<forall>t \<in> set (map int [0..<31]). 0 \<le> t \<and> t < 0 + 60000)"
    by (auto simp: requests_of_def)
  note a = rate_limit_window[of 100 "''s''" Map.empty "map int [0..<31]" 0
      "init_state\<lparr>rateLimit := [''s'' \<mapsto> replicate 30 99]\<rparr>" "JString ''ABC123''"]
  note b = rate_limit_window[of 100 "''s''" "[''s'' \<mapsto> replicate 30 99]" "[]" 0 init_state JOther]
  from a adm have 1: "requests_of (snd (checkRateLimit 100 ''s'' Map.empty)) ''s'' = [100]"
    by (simp add: requests_of_def)
  from b den have 2: "snd (checkRateLimit 100 ''s'' [''s'' \<mapsto> replicate 30 99]) = [''s'' \<mapsto> replicate 30 99]"
    by blast
  from a burst have 3: "checkRateLimit_seq (map int [0..<31]) ''s'' Map.empty = replicate 30 True @ [False]"
    by blast
  from a den have 4: "snd (join_room 100 ''s'' (JString ''ABC123'') (init_state\<lparr>rateLimit := [''s'' \<mapsto> replicate 30 99]\<rparr>))
     = [({''s''}, Error ''Too many requests. Please wait.'')]"
    by simp
  from adm den 1 2 3 4 show ?thesis by blast
qed

text \<open>
  Claim C10. The join handler calls the rate limiter first and keeps what it returns,
  whatever the room code: the rate limit record after a join is the one
  \<open>checkRateLimit\<close> computed, so an admitted attempt has its timestamp recorded also
  when the join is then refused for its code or for a full room.
\<close>

theorem join_consumes_budget:
  "rateLimit (fst (join_room now sid roomId st)) = snd (checkRateLimit now sid (rateLimit st)) \<and>
   (fst (checkRateLimit now sid (rateLimit st)) \<longrightarrow>
      requests_of (rateLimit (fst (join_room now sid roomId st))) sid =
        filter (\<lambda>t. now - t < RATE_LIMIT_WINDOW) (requests_of (rateLimit st) sid) @ [now])"
  by (simp add: join_room_rateLimit checkRateLimit_admitted requests_of_def)

theorem join_consumes_budget_witness:
  "fst (checkRateLimit 5 ''s'' (rateLimit init_state)) \<and>
   snd (join_room 5 ''s'' JOther init_state) = [({''s''}, Error ''Invalid room code format.'')] \<and>
   requests_of (rateLimit (fst (join_room 5 ''s'' JOther init_state))) ''s'' = [5]"
proof -
  have adm: "fst (checkRateLimit 5 ''s'' (rateLimit init_state))"
    by (simp add: checkRateLimit_def requests_of_def MAX_REQUESTS_PER_WINDOW_def init_state_def)
  from join_consumes_budget[of 5 "''s''" JOther init_state] adm
  have "requests_of (rateLimit (fst (join_room 5 ''s'' JOther init_state))) ''s'' =
      filter (\<lambda>t. 5 - t < RATE_LIMIT_WINDOW) (requests_of (rateLimit init_state) ''s'') @ [5]"
    by blast
  moreover have "requests_of (rateLimit init_state) ''s'' = []"
    by (simp add: requests_of_def init_state_def)
  ultimately have "requests_of (rateLimit (fst (join_room 5 ''s'' JOther init_state))) ''s'' = [5]"
    by simp
  moreover have "snd (join_room 5 ''s'' JOther init_state) =
      [({''s''}, Error ''Invalid room code format.'')]"
    using adm by (simp add: join_room_invalid socket_emit_def)
  ultimately show ?thesis using adm by blast
qed

text \<open>
  Claim C5. \<open>sanitizeRoomId\<close> removes every character outside \<open>[A-Z0-9]\<close> before it
  uppercases, so the lowercase letters are gone by then: \<open>abc123\<close> becomes \<open>123\<close>,
  not \<open>ABC123\<close>, and the join is refused with the format error.
\<close>

theorem sanitize_drops_lowercase:
  "sanitizeRoomId ''abc123'' = ''123'' \<and>
   \<not> validateRoomId (sanitizeRoomId ''abc123'') \<and>
   snd (join_room now sid (JString ''abc123'') init_state) =
     [({sid}, Error ''Room code must be 6 alphanumeric characters.'')]"
proof -
  have s: "sanitizeRoomId ''abc123'' = ''123''"
    by (simp add: sanitizeRoomId_def toUpperCase_def isUpperAlnum_def)
  have v: "\<not> validateRoomId ''123''" by (simp add: validateRoomId_def)
  have adm: "fst (checkRateLimit now sid (rateLimit init_state))"
    by (simp add: checkRateLimit_def requests_of_def MAX_REQUESTS_PER_WINDOW_def init_state_def)
  from join_room_malformed[OF adm, of "JString ''abc123''" "''abc123''"] s v
  show ?thesis by (simp add: socket_emit_def)
qed

theorem join_rejected_effects_witness:
  "(\<exists>msg. snd (join_room 0 ''s'' (JString ''abc123'') init_state) = [({''s''}, Error msg)] \<and>
          rooms (fst (join_room 0 ''s'' (JString ''abc123'') init_state)) = rooms init_state \<and>
          sio (fst (join_room 0 ''s'' (JString ''abc123'') init_state)) = sio init_state) \<and>
   (\<exists>msg. snd (join_room 0 ''s'' JOther init_state) = [({''s''}, Error msg)] \<and>
          rooms (fst (join_room 0 ''s'' JOther init_state)) = rooms init_state \<and>
          sio (fst (join_room 0 ''s'' JOther init_state)) = sio init_state)"
proof -
  have "\<not> validateRoomId (sanitizeRoomId ''abc123'')"
    by (simp add: sanitizeRoomId_def toUpperCase_def isUpperAlnum_def validateRoomId_def)
  then have 1: "\<exists>msg. snd (join_room 0 ''s'' (JString ''abc123'') init_state) = [({''s''}, Error msg)] \<and>
          rooms (fst (join_room 0 ''s'' (JString ''abc123'') init_state)) = rooms init_state \<and>
          sio (fst (join_room 0 ''s'' (JString ''abc123'') init_state)) = sio init_state"
    by (intro join_rejected_effects) simp
  have 2: "\<exists>msg. snd (join_room 0 ''s'' JOther init_state) = [({''s''}, Error msg)] \<and>
          rooms (fst (join_room 0 ''s'' JOther init_state)) = rooms init_state \<and>
          sio (fst (join_room 0 ''s'' JOther init_state)) = sio init_state"
    by (intro join_rejected_effects) simp
  from 1 2 show ?thesis by blast
qed

subsection \<open>The room registry invariant\<close>

lemma set_add_distinct: "distinct us \<Longrightarrow> distinct (set_add x us)"
  by (simp add: set_add_def)

lemma set_add_nonempty: "set_add x us \<noteq> []"
  by (auto simp: set_add_def)

lemma set_add_length: "length us < n \<Longrightarrow> length (set_add x us) \<le> n"
  by (simp add: set_add_def)

lemma set_delete_distinct: "distinct us \<Longrightarrow> distinct (set_delete x us)"
  by (simp add: set_delete_def distinct_removeAll)

lemma set_delete_length: "length (set_delete x us) \<le> length us"
  by (simp add: set_delete_def)

lemma room_invariant_map_of:
  "room_invariant rs \<longleftrightarrow>
     distinct (map fst rs) \<and>
     (\<forall>r us. map_of rs r = Some us \<longrightarrow> us \<noteq> [] \<and> distinct us \<and> length us \<le> MAX_ROOM_SIZE)"
  unfolding room_invariant_def
  by (cases "distinct (map fst rs)") (simp_all add: Ball_def)

lemma add_member_inv:
  assumes inv: "room_invariant rs"
    and room: "\<not> (rooms_has rs k \<and> MAX_ROOM_SIZE \<le> length (rooms_get rs k))"
  defines "rs1 \<equiv> (if \<not> rooms_has rs k then AList.update k [] rs else rs)"
  shows "room_invariant (AList.update k (set_add sid (rooms_get rs1 k)) rs1)"
proof -
  have d1: "distinct (map fst rs1)"
    using inv by (simp add: rs1_def room_invariant_def AList.distinct_update)
  have other: "us \<noteq> [] \<and> distinct us \<and> length us \<le> MAX_ROOM_SIZE"
    if "map_of rs1 r = Some us" "r \<noteq> k" for r us
  proof -
    from that have "map_of rs r = Some us"
      by (cases "rooms_has rs k") (simp_all add: rs1_def AList.update_conv')
    with inv show ?thesis unfolding room_invariant_map_of by blast
  qed
  have cur: "distinct (rooms_get rs1 k) \<and> length (rooms_get rs1 k) < MAX_ROOM_SIZE"
  proof (cases "rooms_has rs k")
    case True
    then obtain us where us: "map_of rs k = Some us" by (auto simp: rooms_has_def)
    with inv have "distinct us" unfolding room_invariant_map_of by blast
    moreover from room True us have "length us < MAX_ROOM_SIZE" by (simp add: rooms_get_def)
    ultimately show ?thesis using True us by (simp add: rs1_def rooms_get_def)
  next
    case False
    then show ?thesis
      by (simp add: rs1_def rooms_get_def AList.update_conv' MAX_ROOM_SIZE_def)
  qed
  show ?thesis
    unfolding room_invariant_map_of
  proof (rule conjI; (intro allI impI)?)
    show "distinct (map fst (AList.update k (set_add sid (rooms_get rs1 k)) rs1))"
      using d1 by (simp add: AList.distinct_update)
  next
    fix r us
    assume "map_of (AList.update k (set_add sid (rooms_get rs1 k)) rs1) r = Some us"
    then consider (new) "us = set_add sid (rooms_get rs1 k)" | (old) "r \<noteq> k" "map_of rs1 r = Some us"
      by (cases "r = k") (auto simp: AList.update_conv')
    then show "us \<noteq> [] \<and> distinct us \<and> length us \<le> MAX_ROOM_SIZE"
    proof cases
      case new
      with cur show ?thesis
        by (simp add: set_add_distinct set_add_nonempty set_add_length)
    next
      case old
      then show ?thesis using other[of r us] by blast
    qed
  qed
qed


lemma join_room_inv:
  assumes "room_invariant (rooms st)"
  shows "room_invariant (rooms (fst (join_room now sid roomId st)))"
proof (cases "checkRateLimit now sid (rateLimit st)")
  case (Pair admitted rl)
  show ?thesis
  proof (cases roomId)
    case JOther
    with Pair assms show ?thesis by (simp add: join_room_def Let_def)
  next
    case (JString s)
    show ?thesis
    proof (cases "rooms_has (rooms st) (sanitizeRoomId s)")
      case True
      with JString Pair assms add_member_inv[of "rooms st" "sanitizeRoomId s" sid]
      show ?thesis by (simp add: join_room_def Let_def)
    next
      case False
      with JString Pair assms add_member_inv[of "rooms st" "sanitizeRoomId s" sid]
      show ?thesis by (simp add: join_room_def Let_def)
    qed
  qed
qed

lemma remove_member_inv:
  assumes inv: "room_invariant rs" and k: "map_of rs k = Some us"
  shows "room_invariant
           (if length (set_delete sid us) = 0
            then AList.delete k (AList.update k (set_delete sid us) rs)
            else AList.update k (set_delete sid us) rs)"
proof -
  from inv have d: "distinct (map fst rs)"
    and old: "\<And>r vs. map_of rs r = Some vs \<Longrightarrow> vs \<noteq> [] \<and> distinct vs \<and> length vs \<le> MAX_ROOM_SIZE"
    unfolding room_invariant_map_of by blast+
  from old[OF k] have us: "distinct (set_delete sid us)" "length (set_delete sid us) \<le> MAX_ROOM_SIZE"
    using set_delete_length[of sid us] by (simp_all add: set_delete_distinct)
  show ?thesis
  proof (cases "length (set_delete sid us) = 0")
    case True
    have "room_invariant (AList.delete k rs)"
      unfolding room_invariant_map_of
    proof (rule conjI; (intro allI impI)?)
      show "distinct (map fst (AList.delete k rs))" using d by (simp add: AList.distinct_delete)
    next
      fix r vs assume "map_of (AList.delete k rs) r = Some vs"
      then have "map_of rs r = Some vs"
        by (cases "r = k") (simp_all add: AList.delete_conv')
      then show "vs \<noteq> [] \<and> distinct vs \<and> length vs \<le> MAX_ROOM_SIZE" by (rule old)
    qed
    with True show ?thesis by (simp add: AList.delete_update_same)
  next
    case False
    have "room_invariant (AList.update k (set_delete sid us) rs)"
      unfolding room_invariant_map_of
    proof (rule conjI; (intro allI impI)?)
      show "distinct (map fst (AList.update k (set_delete sid us) rs))"
        using d by (simp add: AList.distinct_update)
    next
      fix r vs assume "map_of (AList.update k (set_delete sid us) rs) r = Some vs"
      then consider (new) "vs = set_delete sid us" | (old) "map_of rs r = Some vs"
        by (cases "r = k") (auto simp: AList.update_conv')
      then show "vs \<noteq> [] \<and> distinct vs \<and> length vs \<le> MAX_ROOM_SIZE"
      proof cases
        case new
        with us False show ?thesis by simp
      next
        case old
        then show ?thesis by (rule assms(1)[unfolded room_invariant_map_of, THEN conjunct2, rule_format])
      qed
    qed
    with False show ?thesis by simp
  qed
qed

lemma leave_room_inv:
  assumes "room_invariant (rooms st)"
  shows "room_invariant (rooms (fst (leave_room sid roomId st)))"
proof (cases "rooms_has (rooms st) roomId \<and> sid \<in> set (rooms_get (rooms st) roomId)")
  case True
  then obtain us where us: "map_of (rooms st) roomId = Some us"
    by (auto simp: rooms_has_def)
  from remove_member_inv[OF assms us, of sid] True us show ?thesis
    by (simp add: leave_room_def Let_def rooms_get_def)
next
  case False
  then have "leave_room sid roomId st = (st, [])"
    unfolding leave_room_def by (rule if_not_P)
  with assms show ?thesis by simp
qed

lemma disconnect_rooms_keys:
  "set (map fst (fst (disconnect_rooms a sid rs))) \<subseteq> set (map fst rs)"
proof (induction rs)
  case Nil
  show ?case by simp
next
  case (Cons e rs)
  obtain r us where e: "e = (r, us)" by (cases e)
  obtain rest' out where rec: "disconnect_rooms a sid rs = (rest', out)"
    by (cases "disconnect_rooms a sid rs")
  with Cons show ?case by (auto simp: e Let_def)
qed

lemma disconnect_rooms_inv:
  "room_invariant rs \<Longrightarrow> room_invariant (fst (disconnect_rooms a sid rs))"
proof (induction rs)
  case Nil
  then show ?case by (simp add: room_invariant_def)
next
  case (Cons e rs)
  obtain r us where e: "e = (r, us)" by (cases e)
  obtain rest' out where rec: "disconnect_rooms a sid rs = (rest', out)"
    by (cases "disconnect_rooms a sid rs")
  from Cons.prems have inv: "room_invariant rs" and r: "r \<notin> set (map fst rs)"
    and us: "us \<noteq> []" "distinct us" "length us \<le> MAX_ROOM_SIZE"
    by (simp_all add: room_invariant_def e)
  from Cons.IH[OF inv] rec have IH: "room_invariant rest'" by simp
  from r disconnect_rooms_keys[of a sid rs] rec
  have r': "r \<notin> set (map fst rest')" by auto
  have del: "distinct (set_delete sid us)" "length (set_delete sid us) \<le> MAX_ROOM_SIZE"
    using us set_delete_length[of sid us] by (simp_all add: set_delete_distinct)
  show ?case
    using IH r' us del rec
    by (simp add: e room_invariant_def Let_def)
qed

lemma disconnect_inv:
  "room_invariant (rooms st) \<Longrightarrow> room_invariant (rooms (fst (disconnect sid st)))"
  using disconnect_rooms_inv[of "rooms st" "sio_leave_all sid (sio st)" sid]
  by (cases "disconnect_rooms (sio_leave_all sid (sio st)) sid (rooms st)")
     (simp add: disconnect_def Let_def)

lemma sweep_inv:
  "room_invariant (rooms st) \<Longrightarrow> room_invariant (rooms (sweep now st))"
  by (simp add: sweep_def room_invariant_def distinct_map_filter)

lemma handle_inv:
  "room_invariant (rooms st) \<Longrightarrow> room_invariant (rooms (fst (handle now sid m st)))"
  by (cases m) (simp_all add: join_room_inv leave_room_inv)

lemma step_inv:
  "room_invariant (rooms st) \<Longrightarrow> room_invariant (rooms (fst (step e st)))"
proof (cases e)
  case (Pair now ev)
  assume "room_invariant (rooms st)"
  then show ?thesis
    by (cases ev) (simp_all add: Pair handle_inv disconnect_inv sweep_inv connect_def)
qed

lemma run_inv:
  "room_invariant (rooms st) \<Longrightarrow> room_invariant (rooms (run es st))"
  by (induction es arbitrary: st) (simp_all add: step_inv)

lemma room_invariant_meaning:
  assumes "room_invariant rs"
  shows "(rooms_has rs r \<longleftrightarrow> rooms_get rs r \<noteq> []) \<and> card (set (rooms_get rs r)) \<le> MAX_ROOM_SIZE"
proof (cases "map_of rs r")
  case None
  then show ?thesis by (simp add: rooms_has_def rooms_get_def)
next
  case (Some us)
  with assms have "us \<noteq> [] \<and> distinct us \<and> length us \<le> MAX_ROOM_SIZE"
    unfolding room_invariant_map_of by blast
  with Some show ?thesis by (simp add: rooms_has_def rooms_get_def distinct_card)
qed


text \<open>
  Claim C3. The registry invariant holds of the empty registry the server starts with,
  and each of join, leave, the disconnect cleanup and the periodic sweep (and so every
  event, and every run from the start) keeps it. Under it a room code is in the
  registry exactly when its member set is not empty, and no room has more than 10
  members.
\<close>

theorem room_registry_invariant:
  "room_invariant (rooms init_state) \<and>
   (room_invariant (rooms st) \<longrightarrow>
      room_invariant (rooms (fst (join_room now sid roomId st))) \<and>
      room_invariant (rooms (fst (leave_room sid room st))) \<and>
      room_invariant (rooms (fst (disconnect sid st))) \<and>
      room_invariant (rooms (sweep now st)) \<and>
      room_invariant (rooms (fst (step e st))) \<and>
      (\<forall>r. (rooms_has (rooms st) r \<longleftrightarrow> rooms_get (rooms st) r \<noteq> []) \<and>
           card (set (rooms_get (rooms st) r)) \<le> 10)) \<and>
   room_invariant (rooms (run es init_state))"
proof -
  have init: "room_invariant (rooms init_state)"
    by (simp add: init_state_def room_invariant_def)
  moreover have "room_invariant (rooms (run es init_state))"
    using init by (rule run_inv)
  moreover have "\<forall>r. (rooms_has (rooms st) r \<longleftrightarrow> rooms_get (rooms st) r \<noteq> []) \<and>
           card (set (rooms_get (rooms st) r)) \<le> 10" if "room_invariant (rooms st)"
    using room_invariant_meaning[OF that] by (simp add: MAX_ROOM_SIZE_def)
  ultimately show ?thesis
    by (simp add: join_room_inv leave_room_inv disconnect_inv sweep_inv step_inv)
qed

theorem room_registry_invariant_witness:
  "room_invariant [(''ABC123'', [''a'', ''b''])] \<and>
   room_invariant (rooms (fst (join_room 0 ''c'' (JString ''ABC123'')
      (init_state\<lparr>rooms := [(''ABC123'', [''a'', ''b''])]\<rparr>)))) \<and>
   room_invariant (rooms (fst (leave_room ''a'' ''ABC123''
      (init_state\<lparr>rooms := [(''ABC123'', [''a'', ''b''])]\<rparr>)))) \<and>
   room_invariant (rooms (fst (disconnect ''b''
      (init_state\<lparr>rooms := [(''ABC123'', [''a'', ''b''])]\<rparr>)))) \<and>
   room_invariant (rooms (sweep 0 (init_state\<lparr>rooms := [(''ABC123'', [''a'', ''b''])]\<rparr>))) \<and>
   room_invariant (rooms (run [(0, Connect ''a''), (1, Receive ''a'' (JoinRoom (JString ''ABC123''))),
      (2, Disconnect ''a''), (3, Sweep)] init_state))"
proof -
  let ?st = "init_state\<lparr>rooms := [(''ABC123'', [''a'', ''b''])]\<rparr>"
  have h: "room_invariant (rooms ?st)"
    by (simp add: room_invariant_def MAX_ROOM_SIZE_def)
  from room_registry_invariant[where st = ?st and now = 0 and sid = "''c''"
      and roomId = "JString ''ABC123''"
      and es = "[(0, Connect ''a''), (1, Receive ''a'' (JoinRoom (JString ''ABC123''))),
        (2, Disconnect ''a''), (3, Sweep)]"] h
  have 1: "room_invariant (rooms (fst (join_room 0 ''c'' (JString ''ABC123'') ?st)))"
    and 2: "room_invariant (rooms (sweep 0 ?st))"
    and 3: "room_invariant (rooms (run [(0, Connect ''a''), (1, Receive ''a'' (JoinRoom (JString ''ABC123''))),
      (2, Disconnect ''a''), (3, Sweep)] init_state))"
    by blast+
  from room_registry_invariant[where st = ?st and sid = "''a''" and room = "''ABC123''"] h
  have 4: "room_invariant (rooms (fst (leave_room ''a'' ''ABC123'' ?st)))"
    by blast
  from room_registry_invariant[where st = ?st and sid = "''b''"] h
  have 5: "room_invariant (rooms (fst (disconnect ''b'' ?st)))"
    by blast
  from h 1 2 3 4 5 show ?thesis by simp
qed

subsection \<open>Who receives a room broadcast\<close>

lemma join_room_emissions:
  assumes "(to, msg) \<in> set (snd (join_room now sid roomId st))" and "is_room_broadcast msg"
  shows "msg = UserJoined sid \<and>
         (\<exists>room. to = sio_members (sio (fst (join_room now sid roomId st))) room - {sid})"
proof (cases "checkRateLimit now sid (rateLimit st)")
  case (Pair admitted rl)
  show ?thesis
  proof (cases roomId)
    case JOther
    with Pair assms show ?thesis
      by (auto simp: join_room_def Let_def socket_emit_def split: if_splits)
  next
    case (JString s)
    with Pair assms show ?thesis
      by (auto simp: join_room_def Let_def socket_emit_def socket_to_def io_to_def split: if_splits)
  qed
qed

lemma leave_room_emissions:
  assumes "(to, msg) \<in> set (snd (leave_room sid roomId st))"
  shows "msg = UserLeft sid \<and>
         to = sio_members (sio (fst (leave_room sid roomId st))) roomId - {sid}"
  using assms by (auto simp: leave_room_def Let_def socket_to_def split: if_splits)

lemma disconnect_rooms_emissions:
  assumes "(to, msg) \<in> set (snd (disconnect_rooms a sid rs))"
  shows "msg = UserLeft sid \<and> (\<exists>room. to = sio_members a room)"
  using assms
proof (induction rs)
  case Nil
  then show ?case by simp
next
  case (Cons e rs)
  obtain r us where e: "e = (r, us)" by (cases e)
  obtain rest' out where rec: "disconnect_rooms a sid rs = (rest', out)"
    by (cases "disconnect_rooms a sid rs")
  from Cons.prems have "(to, msg) = io_to a r (UserLeft sid) \<or> (to, msg) \<in> set out"
    by (auto simp: e rec Let_def split: if_splits)
  then show ?case
  proof
    assume "(to, msg) = io_to a r (UserLeft sid)"
    then show ?thesis by (auto simp: io_to_def)
  next
    assume "(to, msg) \<in> set out"
    with Cons.IH rec show ?thesis by simp
  qed
qed

lemma disconnect_emissions:
  assumes "(to, msg) \<in> set (snd (disconnect sid st))"
  shows "msg = UserLeft sid \<and> sid \<notin> to \<and>
         (\<exists>room. to = sio_members (sio (fst (disconnect sid st))) room)"
proof -
  let ?a = "sio_leave_all sid (sio st)"
  obtain rs out where rec: "disconnect_rooms ?a sid (rooms st) = (rs, out)"
    by (cases "disconnect_rooms ?a sid (rooms st)")
  with assms have "(to, msg) \<in> set (snd (disconnect_rooms ?a sid (rooms st)))"
    by (simp add: disconnect_def Let_def)
  from disconnect_rooms_emissions[OF this]
  obtain room where "msg = UserLeft sid" "to = sio_members ?a room" by blast
  moreover have "sid \<notin> sio_members ?a room" by (simp add: sio_members_eq sio_leave_all_iff)
  moreover have "sio (fst (disconnect sid st)) = ?a" by (simp add: disconnect_def Let_def rec)
  ultimately show ?thesis by auto
qed

subsection \<open>The registry and the rooms of socket.io\<close>

lemma registry_matchesI:
  assumes "room_invariant (rooms st)"
    and "\<And>r us. map_of (rooms st) r = Some us \<Longrightarrow> validateRoomId r"
    and "\<And>r s. validateRoomId r \<Longrightarrow> (r, s) \<in> sio st \<longleftrightarrow> s \<in> set (rooms_get (rooms st) r)"
  shows "registry_matches st"
  unfolding registry_matches_def
proof (intro conjI)
  from assms(1) have d: "distinct (map fst (rooms st))" by (simp add: room_invariant_def)
  show "\<forall>(r, us) \<in> set (rooms st). validateRoomId r \<and> (\<forall>s \<in> set us. (r, s) \<in> sio st)"
  proof (clarify)
    fix r us assume "(r, us) \<in> set (rooms st)"
    with d have m: "map_of (rooms st) r = Some us" by simp
    then have v: "validateRoomId r" by (rule assms(2))
    moreover have "(r, s) \<in> sio st" if "s \<in> set us" for s
      using assms(3)[OF v, of s] m that by (simp add: rooms_get_def)
    ultimately show "validateRoomId r \<and> (\<forall>s \<in> set us. (r, s) \<in> sio st)" by blast
  qed
  show "\<forall>(r, s) \<in> sio st. validateRoomId r \<longrightarrow> s \<in> set (rooms_get (rooms st) r)"
    using assms(3) by blast
qed (rule assms(1))

lemma registry_matchesD:
  assumes "registry_matches st"
  shows "room_invariant (rooms st)"
    and "map_of (rooms st) r = Some us \<Longrightarrow> validateRoomId r"
    and "validateRoomId r \<Longrightarrow> (r, s) \<in> sio st \<longleftrightarrow> s \<in> set (rooms_get (rooms st) r)"
proof -
  from assms show "room_invariant (rooms st)" by (simp add: registry_matches_def)
  from assms have listed: "\<And>r us s. (r, us) \<in> set (rooms st) \<Longrightarrow> s \<in> set us \<Longrightarrow> (r, s) \<in> sio st"
    and held: "\<And>r s. (r, s) \<in> sio st \<Longrightarrow> validateRoomId r \<Longrightarrow> s \<in> set (rooms_get (rooms st) r)"
    and keys: "\<And>r us. (r, us) \<in> set (rooms st) \<Longrightarrow> validateRoomId r"
    unfolding registry_matches_def by blast+
  show "validateRoomId r" if "map_of (rooms st) r = Some us"
    using keys map_of_SomeD[OF that] by blast
  show "(r, s) \<in> sio st \<longleftrightarrow> s \<in> set (rooms_get (rooms st) r)" if v: "validateRoomId r"
  proof
    assume "(r, s) \<in> sio st"
    then show "s \<in> set (rooms_get (rooms st) r)" using v by (rule held)
  next
    assume s: "s \<in> set (rooms_get (rooms st) r)"
    then obtain vs where vs: "map_of (rooms st) r = Some vs" "s \<in> set vs"
      by (cases "map_of (rooms st) r") (simp_all add: rooms_get_def)
    from map_of_SomeD[OF vs(1)] vs(2) show "(r, s) \<in> sio st" by (rule listed)
  qed
qed

lemma rooms_get_update:
  "rooms_get (AList.update k v rs) r = (if r = k then v else rooms_get rs r)"
  by (simp add: rooms_get_def AList.update_conv')

lemma rooms_get_delete:
  "rooms_get (AList.delete k rs) r = (if r = k then [] else rooms_get rs r)"
  by (simp add: rooms_get_def AList.delete_conv')

lemma join_room_accepted:
  assumes "fst (checkRateLimit now sid (rateLimit st))" and "s \<noteq> []"
    and "validateRoomId (sanitizeRoomId s)"
    and "\<not> (rooms_has (rooms st) (sanitizeRoomId s) \<and>
             MAX_ROOM_SIZE \<le> length (rooms_get (rooms st) (sanitizeRoomId s)))"
  shows "rooms (fst (join_room now sid (JString s) st)) =
           AList.update (sanitizeRoomId s) (set_add sid (rooms_get (rooms st) (sanitizeRoomId s))) (rooms st)"
    and "sio (fst (join_room now sid (JString s) st)) = insert (sanitizeRoomId s, sid) (sio st)"
proof -
  obtain rl where c: "checkRateLimit now sid (rateLimit st) = (True, rl)"
    using assms(1) by (cases "checkRateLimit now sid (rateLimit st)") simp
  show "sio (fst (join_room now sid (JString s) st)) = insert (sanitizeRoomId s, sid) (sio st)"
    using assms(2-4) c
    by (cases "rooms_has (rooms st) (sanitizeRoomId s)") (simp_all add: join_room_def Let_def)
  show "rooms (fst (join_room now sid (JString s) st)) =
           AList.update (sanitizeRoomId s) (set_add sid (rooms_get (rooms st) (sanitizeRoomId s))) (rooms st)"
  proof (cases "rooms_has (rooms st) (sanitizeRoomId s)")
    case True
    with assms(2-4) c show ?thesis by (simp add: join_room_def Let_def)
  next
    case False
    then have "rooms_get (rooms st) (sanitizeRoomId s) = []"
      by (simp add: rooms_has_def rooms_get_def)
    with False assms(2-4) c show ?thesis
      by (simp add: join_room_def Let_def rooms_get_update)
  qed
qed

lemma join_room_matches:
  assumes m: "registry_matches st"
  shows "registry_matches (fst (join_room now sid roomId st))"
proof -
  let ?st' = "fst (join_room now sid roomId st)"
  consider (rejected) "rooms ?st' = rooms st" "sio ?st' = sio st"
    | (accepted) s where "roomId = JString s" "validateRoomId (sanitizeRoomId s)"
        "rooms ?st' = AList.update (sanitizeRoomId s)
            (set_add sid (rooms_get (rooms st) (sanitizeRoomId s))) (rooms st)"
        "sio ?st' = insert (sanitizeRoomId s, sid) (sio st)"
  proof (cases "\<not> fst (checkRateLimit now sid (rateLimit st)) \<or>
           (case roomId of
              JOther \<Rightarrow> True
            | JString s \<Rightarrow>
                s = [] \<or> \<not> validateRoomId (sanitizeRoomId s) \<or>
                (rooms_has (rooms st) (sanitizeRoomId s) \<and>
                 MAX_ROOM_SIZE \<le> length (rooms_get (rooms st) (sanitizeRoomId s))))")
    case True
    from join_room_refused[OF True] rejected show ?thesis by blast
  next
    case False
    then obtain s where s: "roomId = JString s" by (cases roomId) auto
    with False join_room_accepted[of now sid st s] accepted[of s] show ?thesis by auto
  qed
  then show ?thesis
  proof cases
    case rejected
    with m show ?thesis by (simp add: registry_matches_def)
  next
    case (accepted s)
    let ?k = "sanitizeRoomId s"
    show ?thesis
    proof (rule registry_matchesI)
      show "room_invariant (rooms ?st')"
        using registry_matchesD(1)[OF m] by (rule join_room_inv)
    next
      fix r us assume "map_of (rooms ?st') r = Some us"
      then have "r = ?k \<or> map_of (rooms st) r = Some us"
        by (cases "r = ?k") (simp_all add: accepted(3) AList.update_conv')
      with accepted(2) registry_matchesD(2)[OF m] show "validateRoomId r" by blast
    next
      fix r s' assume "validateRoomId r"
      with registry_matchesD(3)[OF m, of r s']
      show "(r, s') \<in> sio ?st' \<longleftrightarrow> s' \<in> set (rooms_get (rooms ?st') r)"
        by (auto simp: accepted(3,4) rooms_get_update set_add_def)
    qed
  qed
qed

lemma leave_room_matches:
  assumes m: "registry_matches st"
  shows "registry_matches (fst (leave_room sid roomId st))"
proof (cases "rooms_has (rooms st) roomId \<and> sid \<in> set (rooms_get (rooms st) roomId)")
  case False
  then have "leave_room sid roomId st = (st, [])"
    unfolding leave_room_def by (rule if_not_P)
  with m show ?thesis by simp
next
  case True
  let ?st' = "fst (leave_room sid roomId st)"
  let ?us = "set_delete sid (rooms_get (rooms st) roomId)"
  from True obtain us where us: "map_of (rooms st) roomId = Some us" by (auto simp: rooms_has_def)
  have valid: "validateRoomId roomId" using registry_matchesD(2)[OF m us] .
  have sio': "sio ?st' = sio st - {(roomId, sid)}"
    using True by (simp add: leave_room_def Let_def)
  have rooms': "rooms ?st' = (if length ?us = 0 then AList.delete roomId (AList.update roomId ?us (rooms st))
      else AList.update roomId ?us (rooms st))"
    using True by (simp add: leave_room_def Let_def)
  have get': "set (rooms_get (rooms ?st') r) = (if r = roomId then set ?us else set (rooms_get (rooms st) r))" for r
    unfolding rooms' by (simp add: rooms_get_update rooms_get_delete)
  show ?thesis
  proof (rule registry_matchesI)
    show "room_invariant (rooms ?st')"
      using registry_matchesD(1)[OF m] by (rule leave_room_inv)
  next
    fix r vs assume "map_of (rooms ?st') r = Some vs"
    then have "r = roomId \<or> map_of (rooms st) r = Some vs"
      unfolding rooms'
      by (cases "r = roomId") (simp_all add: AList.update_conv' AList.delete_conv' split: if_splits)
    with valid registry_matchesD(2)[OF m] show "validateRoomId r" by blast
  next
    fix r s assume "validateRoomId r"
    with registry_matchesD(3)[OF m, of r s]
    show "(r, s) \<in> sio ?st' \<longleftrightarrow> s \<in> set (rooms_get (rooms ?st') r)"
      unfolding get' sio' by (auto simp: set_delete_def)
  qed
qed

lemma disconnect_rooms_get:
  assumes "distinct (map fst rs)" and "\<forall>(r, us) \<in> set rs. us \<noteq> []"
  shows "set (rooms_get (fst (disconnect_rooms a sid rs)) r) = set (rooms_get rs r) - {sid}"
  using assms
proof (induction rs)
  case Nil
  show ?case by (simp add: rooms_get_def)
next
  case (Cons e rs)
  obtain k us where e: "e = (k, us)" by (cases e)
  obtain rest' out where rec: "disconnect_rooms a sid rs = (rest', out)"
    by (cases "disconnect_rooms a sid rs")
  from Cons.prems have d: "distinct (map fst rs)" and k: "k \<notin> set (map fst rs)"
    and ne: "\<forall>(r, us) \<in> set rs. us \<noteq> []"
    by (simp_all add: e)
  from Cons.IH[OF d ne] rec
  have IH: "set (rooms_get rest' r) = set (rooms_get rs r) - {sid}" by simp
  from k disconnect_rooms_keys[of a sid rs] rec have k': "k \<notin> set (map fst rest')" by auto
  then have absent: "map_of rest' k = None" by (simp add: map_of_eq_None_iff)
  from k have absent0: "map_of rs k = None" by (simp add: map_of_eq_None_iff)
  show ?case
  proof (cases "r = k")
    case True
    have rem: "set us - {sid} = {}" if "removeAll sid us = []"
      using set_removeAll[of sid us] that by simp
    from True absent absent0 rec rem show ?thesis
      by (auto simp: e rooms_get_def Let_def set_delete_def)
  next
    case False
    with IH rec show ?thesis
      by (auto simp: e rooms_get_def Let_def)
  qed
qed

lemma disconnect_rooms_subset:
  "(r, us) \<in> set (fst (disconnect_rooms a sid rs)) \<Longrightarrow> r \<in> fst ` set rs"
  using disconnect_rooms_keys[of a sid rs] by force

lemma disconnect_matches:
  assumes m: "registry_matches st"
  shows "registry_matches (fst (disconnect sid st))"
proof -
  let ?a = "sio_leave_all sid (sio st)"
  let ?st' = "fst (disconnect sid st)"
  obtain rs out where rec: "disconnect_rooms ?a sid (rooms st) = (rs, out)"
    by (cases "disconnect_rooms ?a sid (rooms st)")
  have rooms': "rooms ?st' = fst (disconnect_rooms ?a sid (rooms st))"
    and sio': "sio ?st' = ?a"
    by (simp_all add: disconnect_def Let_def rec)
  from registry_matchesD(1)[OF m] have d: "distinct (map fst (rooms st))"
    and ne: "\<forall>(r, us) \<in> set (rooms st). us \<noteq> []"
    by (auto simp: room_invariant_def)
  show ?thesis
  proof (rule registry_matchesI)
    show "room_invariant (rooms ?st')"
      using registry_matchesD(1)[OF m] by (rule disconnect_inv)
  next
    fix r us assume "map_of (rooms ?st') r = Some us"
    then have "(r, us) \<in> set (fst (disconnect_rooms ?a sid (rooms st)))"
      unfolding rooms' by (rule map_of_SomeD)
    then have "r \<in> fst ` set (rooms st)" by (rule disconnect_rooms_subset)
    then obtain vs where "(r, vs) \<in> set (rooms st)" by auto
    with d have "map_of (rooms st) r = Some vs" by simp
    then show "validateRoomId r" by (rule registry_matchesD(2)[OF m])
  next
    fix r s assume "validateRoomId r"
    with registry_matchesD(3)[OF m, of r s]
    show "(r, s) \<in> sio ?st' \<longleftrightarrow> s \<in> set (rooms_get (rooms ?st') r)"
      unfolding rooms' sio' disconnect_rooms_get[OF d ne] by (auto simp: sio_leave_all_iff)
  qed
qed

lemma sweep_matches:
  assumes m: "registry_matches st"
  shows "registry_matches (sweep now st)"
proof -
  from registry_matchesD(1)[OF m] have "\<forall>(r, us) \<in> set (rooms st). us \<noteq> []"
    by (auto simp: room_invariant_def)
  then have "filter (\<lambda>(roomId, users). length users \<noteq> 0) (rooms st) = rooms st"
    by (intro filter_True) auto
  then have "rooms (sweep now st) = rooms st" "sio (sweep now st) = sio st"
    by (simp_all add: sweep_def)
  with m show ?thesis by (simp add: registry_matches_def)
qed

lemma connect_matches:
  assumes m: "registry_matches st" and "\<not> validateRoomId sid"
  shows "registry_matches (connect sid st)"
  using assms by (auto simp: registry_matches_def connect_def)

lemma handle_matches:
  assumes m: "registry_matches st"
  shows "registry_matches (fst (handle now sid msg st))"
  using m by (cases msg) (simp_all add: join_room_matches leave_room_matches)

lemma init_matches: "registry_matches init_state"
  by (simp add: registry_matches_def init_state_def room_invariant_def rooms_get_def)

lemma step_matches:
  assumes "registry_matches st" and "socket_ids_ok [e]"
  shows "registry_matches (fst (step e st))"
proof (cases e)
  case (Pair now ev)
  with assms show ?thesis
    by (cases ev)
       (simp_all add: socket_ids_ok_def connect_matches handle_matches disconnect_matches sweep_matches)
qed

lemma run_matches:
  assumes "registry_matches st" and "socket_ids_ok es"
  shows "registry_matches (run es st)"
  using assms
proof (induction es arbitrary: st)
  case Nil
  then show ?case by simp
next
  case (Cons e es)
  from Cons.prems(2) have "socket_ids_ok [e]" "socket_ids_ok es"
    by (simp_all add: socket_ids_ok_def)
  with Cons.IH[of "fst (step e st)"] step_matches[OF Cons.prems(1)] show ?case by simp
qed

lemma registry_members:
  assumes "registry_matches st" and "validateRoomId room"
  shows "sio_members (sio st) room = set (rooms_get (rooms st) room)"
  using registry_matchesD(3)[OF assms] by (auto simp: sio_members_eq)

text \<open>
  Claim C6. The server forwards a \<open>file-info\<close>, \<open>file-chunk\<close> or \<open>file-complete\<close>
  event as one message, tagged with the sender's id, to the sockets that socket.io
  holds in the named room, the sender excepted. Of every event a socket sends, each
  room-broadcast message that results (a relayed file event, \<open>user-joined\<close>,
  \<open>user-left\<close>) carries the sender's id and goes to the members of one room without the
  sender; the \<open>user-left\<close> messages of a disconnect go to the members left in a room,
  the socket itself being out of every room by then. Where the registry agrees with
  socket.io, as it does in every state the server reaches (\<open>run_matches\<close>), the
  members of a room code are those the registry lists.
\<close>

theorem relay_excludes_sender:
  "handle now sid (FileInfo room fileId name sz mime) st =
     (st, [(sio_members (sio st) room - {sid}, FileInfoMsg fileId name sz mime sid)]) \<and>
   handle now sid (FileChunk room fileId chunkIndex dat isLast) st =
     (st, [(sio_members (sio st) room - {sid}, FileChunkMsg fileId chunkIndex dat isLast sid)]) \<and>
   handle now sid (FileComplete room fileId) st =
     (st, [(sio_members (sio st) room - {sid}, FileCompleteMsg fileId sid)]) \<and>
   (\<forall>(to, msg) \<in> set (snd (step (now, Receive sid m) st)).
      is_room_broadcast msg \<longrightarrow>
        sid \<notin> to \<and> sender_of msg = Some sid \<and>
        (\<exists>r. to = sio_members (sio (fst (step (now, Receive sid m) st))) r - {sid})) \<and>
   (\<forall>(to, msg) \<in> set (snd (step (now, Disconnect sid) st)).
      sid \<notin> to \<and> msg = UserLeft sid \<and>
      (\<exists>r. to = sio_members (sio (fst (step (now, Disconnect sid) st))) r)) \<and>
   (registry_matches st \<and> validateRoomId room \<longrightarrow>
      sio_members (sio st) room = set (rooms_get (rooms st) room))"
proof (intro conjI)
  show "registry_matches st \<and> validateRoomId room \<longrightarrow>
      sio_members (sio st) room = set (rooms_get (rooms st) room)"
    by (simp add: registry_members)
next
  show "\<forall>(to, msg) \<in> set (snd (step (now, Receive sid m) st)).
      is_room_broadcast msg \<longrightarrow>
        sid \<notin> to \<and> sender_of msg = Some sid \<and>
        (\<exists>r. to = sio_members (sio (fst (step (now, Receive sid m) st))) r - {sid})"
  proof (intro ballI, clarify)
    fix to msg
    assume in_out: "(to, msg) \<in> set (snd (step (now, Receive sid m) st))" and b: "is_room_broadcast msg"
    have *: "sender_of msg = Some sid \<and>
        (\<exists>r. to = sio_members (sio (fst (step (now, Receive sid m) st))) r - {sid})"
    proof (cases m)
      case (JoinRoom roomId)
      with in_out b join_room_emissions[of to msg now sid roomId st] show ?thesis by auto
    next
      case (LeaveRoom roomId)
      with in_out leave_room_emissions[of to msg sid roomId st] show ?thesis by auto
    qed (use in_out b in \<open>auto simp: socket_to_def socket_emit_def\<close>)
    from * show "sid \<notin> to \<and> sender_of msg = Some sid \<and>
        (\<exists>r. to = sio_members (sio (fst (step (now, Receive sid m) st))) r - {sid})" by blast
  qed
next
  show "\<forall>(to, msg) \<in> set (snd (step (now, Disconnect sid) st)).
      sid \<notin> to \<and> msg = UserLeft sid \<and>
      (\<exists>r. to = sio_members (sio (fst (step (now, Disconnect sid) st))) r)"
    using disconnect_emissions[of _ _ sid st] by auto
qed (simp_all add: socket_to_def)

theorem relay_excludes_sender_witness:
  "snd (handle 0 ''a'' (FileChunk ''ABC123'' ''17'' 0 ''SGk='' True)
         \<lparr>rooms = [(''ABC123'', [''a'', ''b'', ''c''])], rateLimit = Map.empty,
           sio = {(''ABC123'', ''a''), (''ABC123'', ''b''), (''ABC123'', ''c'')}\<rparr>) =
     [({''b'', ''c''}, FileChunkMsg ''17'' 0 ''SGk='' True ''a'')] \<and>
   ''a'' \<notin> {''b'', ''c''} \<and>
   sender_of (FileChunkMsg ''17'' 0 ''SGk='' True ''a'') = Some ''a'' \<and>
   sio_members {(''ABC123'', ''a''), (''ABC123'', ''b''), (''ABC123'', ''c'')} ''ABC123'' =
     set [''a'', ''b'', ''c'']"
proof -
  let ?st = "\<lparr>rooms = [(''ABC123'', [''a'', ''b'', ''c''])], rateLimit = Map.empty,
           sio = {(''ABC123'', ''a''), (''ABC123'', ''b''), (''ABC123'', ''c'')}\<rparr>"
  let ?m = "FileChunk ''ABC123'' ''17'' 0 ''SGk='' True"
  note t = relay_excludes_sender[where st = ?st and now = 0 and sid = "''a''" and room = "''ABC123''"
      and fileId = "''17''" and chunkIndex = 0 and dat = "''SGk=''" and isLast = True and m = ?m]
  have valid: "validateRoomId ''ABC123''"
    by (simp add: validateRoomId_def isUpperAlnum_def)
  have inv: "room_invariant (rooms ?st)"
    by (simp add: room_invariant_def MAX_ROOM_SIZE_def)
  have "registry_matches ?st"
  proof (rule registry_matchesI[OF inv])
    fix r us assume "map_of (rooms ?st) r = Some us"
    then have "r = ''ABC123''" by (simp split: if_splits)
    with valid show "validateRoomId r" by simp
  next
    fix r s
    show "(r, s) \<in> sio ?st \<longleftrightarrow> s \<in> set (rooms_get (rooms ?st) r)"
      by (auto simp: rooms_get_def)
  qed
  with t valid have members: "sio_members (sio ?st) ''ABC123'' = set (rooms_get (rooms ?st) ''ABC123'')"
    by blast
  then have m: "sio_members {(''ABC123'', ''a''), (''ABC123'', ''b''), (''ABC123'', ''c'')} ''ABC123'' =
     set [''a'', ''b'', ''c'']"
    by (simp add: rooms_get_def)
  from t have "handle 0 ''a'' ?m ?st =
      (?st, [(sio_members (sio ?st) ''ABC123'' - {''a''}, FileChunkMsg ''17'' 0 ''SGk='' True ''a'')])"
    by blast
  with m have out: "snd (handle 0 ''a'' ?m ?st) = [({''b'', ''c''}, FileChunkMsg ''17'' 0 ''SGk='' True ''a'')]"
    by auto
  then have "({''b'', ''c''}, FileChunkMsg ''17'' 0 ''SGk='' True ''a'') \<in> set (snd (step (0, Receive ''a'' ?m) ?st))"
    by simp
  with t have "''a'' \<notin> {''b'', ''c''} \<and> sender_of (FileChunkMsg ''17'' 0 ''SGk='' True ''a'') = Some ''a''"
    by fastforce
  with out m show ?thesis by blast
qed

section \<open>Properties of the client\<close>

subsection \<open>Decoding what was encoded\<close>

lemma b64_alphabet_distinct: "distinct b64_alphabet"
  by (simp add: b64_alphabet_def)

lemma b64_alphabet_length: "length b64_alphabet = 64"
  by (simp add: b64_alphabet_def)

lemma index_of_nth:
  "distinct xs \<Longrightarrow> n < length xs \<Longrightarrow> index_of (xs ! n) xs = Some n"
proof (induction xs arbitrary: n)
  case Nil
  then show ?case by simp
next
  case (Cons x xs)
  show ?case
  proof (cases n)
    case 0
    then show ?thesis by simp
  next
    case (Suc m)
    with Cons.prems have "xs ! m \<noteq> x" "index_of (xs ! m) xs = Some m"
      using Cons.IH[of m] by auto
    with Suc show ?thesis by simp
  qed
qed

lemma b64_index_char: "n < 64 \<Longrightarrow> b64_index (b64_char n) = n"
  using index_of_nth[OF b64_alphabet_distinct, of n]
  by (simp add: b64_index_def b64_char_def b64_alphabet_length)

lemma b64_char_in: "n < 64 \<Longrightarrow> b64_char n \<in> set b64_alphabet"
  by (simp add: b64_char_def b64_alphabet_length)

lemma alphabet_no_pad: "CHR ''='' \<notin> set b64_alphabet"
  by (simp add: b64_alphabet_def)

lemma alphabet_no_space: "c \<in> set b64_alphabet \<Longrightarrow> \<not> isAsciiWhitespace c"
  by (auto simp: b64_alphabet_def isAsciiWhitespace_def)

lemma pad_no_space: "\<not> isAsciiWhitespace CHR ''=''"
  by (simp add: isAsciiWhitespace_def)

lemma unat_byte: "unat (x :: byte) < 256"
  using unsigned_less[of x, where ?'a = nat] by simp

lemma sextet_bounds:
  fixes x y z :: byte
  shows "unat x div 4 < 64" "(unat x mod 4) * 16 + unat y div 16 < 64"
    "(unat y mod 16) * 4 + unat z div 64 < 64" "unat z mod 64 < 64"
    "(unat x mod 4) * 16 < 64" "(unat y mod 16) * 4 < 64"
  using unat_byte[of x] unat_byte[of y] unat_byte[of z] by simp_all

lemma unpadded_alphabet: "set (unpadded bs) \<subseteq> set b64_alphabet"
  by (induction bs rule: unpadded.induct) (simp_all add: b64_char_in sextet_bounds)

lemma btoa_unpadded: "\<exists>p\<le>2. btoa bs = unpadded bs @ replicate p CHR ''=''"
proof (induction bs rule: btoa.induct)
  case 1
  show ?case by simp
next
  case (2 x)
  show ?case by (rule exI[of _ 2]) (simp add: numeral_2_eq_2)
next
  case (3 x y)
  show ?case by (rule exI[of _ 1]) simp
next
  case (4 x y z rest)
  then show ?case by auto
qed

lemma length_btoa: "length (btoa bs) mod 4 = 0"
  by (induction bs rule: btoa.induct) simp_all

lemma length_unpadded: "length (unpadded bs) mod 4 \<noteq> 1"
  by (induction bs rule: unpadded.induct) simp_all

lemma strip_padding_pad:
  assumes "p \<le> 2" and "CHR ''='' \<notin> set u"
  shows "strip_padding (u @ replicate p CHR ''='') = u"
proof -
  have tail: "drop (length u - n) u \<noteq> replicate n CHR ''=''" if "0 < n" "n \<le> length u" for n
  proof
    assume eq: "drop (length u - n) u = replicate n CHR ''=''"
    from that have "CHR ''='' \<in> set (replicate n CHR ''='')" by simp
    with eq have "CHR ''='' \<in> set (drop (length u - n) u)" by simp
    with assms(2) show False by (meson in_set_dropD)
  qed
  consider "p = 0" | "p = 1" | "p = 2" using assms(1) by arith
  then show ?thesis
  proof cases
    case 1
    have a: "\<not> (2 \<le> length u \<and> drop (length u - 2) u = ''=='')"
      using tail[of 2] by (auto simp: numeral_2_eq_2)
    have b: "\<not> (1 \<le> length u \<and> drop (length u - 1) u = ''='')"
      using tail[of 1] by auto
    from 1 a b show ?thesis unfolding strip_padding_def by auto
  next
    case 2
    have "\<not> (2 \<le> length u + 1 \<and> drop (length u + 1 - 2) (u @ ''='') = ''=='')"
    proof
      assume h: "2 \<le> length u + 1 \<and> drop (length u + 1 - 2) (u @ ''='') = ''==''"
      then have "1 \<le> length u" by arith
      with h have "drop (length u - 1) u @ ''='' = ''==''" by simp
      then have "drop (length u - 1) u = ''=''" by simp
      with tail[of 1] \<open>1 \<le> length u\<close> show False by simp
    qed
    with 2 show ?thesis unfolding strip_padding_def by auto
  next
    case 3
    then show ?thesis by (simp add: strip_padding_def numeral_2_eq_2)
  qed
qed

lemma decode_unpadded: "decode_sextets (map b64_index (unpadded bs)) = bs"
proof (induction bs rule: unpadded.induct)
  case 1
  show ?case by simp
next
  case (2 x)
  have "unat x div 4 * 4 + unat x mod 4 * 16 div 16 = unat x" by simp
  then show ?case by (simp add: b64_index_char sextet_bounds)
next
  case (3 x y)
  have "unat x div 4 * 4 + (unat x mod 4 * 16 + unat y div 16) div 16 = unat x"
    using unat_byte[of y] by simp
  moreover have "(unat x mod 4 * 16 + unat y div 16) mod 16 * 16 + unat y mod 16 * 4 div 4 = unat y"
    using unat_byte[of y] by simp
  ultimately show ?case by (simp add: b64_index_char sextet_bounds)
next
  case (4 x y z rest)
  have "unat x div 4 * 4 + (unat x mod 4 * 16 + unat y div 16) div 16 = unat x"
    using unat_byte[of y] by simp
  moreover have "(unat x mod 4 * 16 + unat y div 16) mod 16 * 16 + (unat y mod 16 * 4 + unat z div 64) div 4 = unat y"
    using unat_byte[of y] unat_byte[of z] by simp
  moreover have "(unat y mod 16 * 4 + unat z div 64) mod 4 * 64 + unat z mod 64 = unat z"
    using unat_byte[of z] by simp
  ultimately show ?case using 4 by (simp add: b64_index_char sextet_bounds)
qed

lemma atob_btoa: "atob (btoa bs) = Inr bs"
proof -
  obtain p where p: "p \<le> 2" "btoa bs = unpadded bs @ replicate p CHR ''=''"
    using btoa_unpadded by blast
  have nopad: "CHR ''='' \<notin> set (unpadded bs)"
    using unpadded_alphabet[of bs] alphabet_no_pad by blast
  have "\<forall>c \<in> set (btoa bs). \<not> isAsciiWhitespace c"
    using unpadded_alphabet[of bs] by (auto simp: p alphabet_no_space pad_no_space)
  then have f: "filter (\<lambda>c. \<not> isAsciiWhitespace c) (btoa bs) = btoa bs" by simp
  have s: "strip_padding (btoa bs) = unpadded bs"
    unfolding p(2) using p(1) nopad by (rule strip_padding_pad)
  have al: "list_all (\<lambda>c. c \<in> set b64_alphabet) (unpadded bs)"
    using unpadded_alphabet[of bs] by (auto simp: list_all_iff)
  show ?thesis
    using al length_unpadded[of bs]
    by (simp add: atob_def Let_def f length_btoa s decode_unpadded)
qed

subsection \<open>What the relay delivers of a file stream\<close>

lemma handle_file_event:
  assumes "file_room m = Some room"
  shows "handle now sid m st = (st, [(sio_members (sio st) room - {sid}, the (forwarded sid m))])"
  using assms by (cases m) (simp_all add: socket_to_def)

lemma relay_file_events:
  assumes "\<forall>m \<in> set ms. file_room m = Some room" and "(room, r) \<in> sio st" and "r \<noteq> sid"
  shows "deliveries r (relay now sid ms st) = map (\<lambda>m. the (forwarded sid m)) ms"
  using assms(1)
proof (induction ms)
  case Nil
  show ?case by (simp add: relay_def deliveries_def)
next
  case (Cons m ms)
  then have m: "file_room m = Some room" and rest: "\<forall>m \<in> set ms. file_room m = Some room"
    by simp_all
  from Cons.IH[OF rest] assms(2,3) show ?case
    by (simp add: relay_def deliveries_def handle_file_event[OF m] sio_members_eq)
qed

lemma sendNextChunk_rooms:
  "\<forall>m \<in> set (sendNextChunk room fileId bytes offset chunkIndex). file_room m = Some room"
proof (induction room fileId bytes offset chunkIndex rule: sendNextChunk.induct)
  case (1 room fileId bytes offset chunkIndex)
  show ?case
  proof (cases "offset + fileChunkSize < length bytes")
    case True
    with 1 show ?thesis by (subst sendNextChunk.simps) (simp add: Let_def)
  next
    case False
    then show ?thesis by (subst sendNextChunk.simps) (simp add: Let_def)
  qed
qed

lemma totalSize_reassemble: "totalSize cs sz = sz + length (reassemble cs)"
  by (induction cs sz rule: totalSize.induct) (simp_all add: reassemble_def)


lemma reassemble_simps:
  "reassemble [] = []"
  "reassemble (None # cs) = reassemble cs"
  "reassemble (Some chunk # cs) = chunk @ reassemble cs"
  "reassemble (cs @ ds) = reassemble cs @ reassemble ds"
  by (simp_all add: reassemble_def)

lemma copy_chunks_reassemble:
  "copy_chunks cs (length pre) (pre @ replicate (length (reassemble cs)) 0) = Inr (pre @ reassemble cs)"
proof (induction cs arbitrary: pre)
  case Nil
  then show ?case by (simp add: reassemble_simps)
next
  case (Cons c cs)
  show ?case
  proof (cases c)
    case None
    with Cons.IH[of pre] show ?thesis by (simp add: reassemble_simps)
  next
    case (Some chunk)
    have "uint8_set (pre @ replicate (length (reassemble (Some chunk # cs))) 0) chunk (length pre) =
            Inr ((pre @ chunk) @ replicate (length (reassemble cs)) 0)"
      by (simp add: uint8_set_def reassemble_simps replicate_add[symmetric])
    moreover have "copy_chunks cs (length (pre @ chunk)) ((pre @ chunk) @ replicate (length (reassemble cs)) 0)
        = Inr ((pre @ chunk) @ reassemble cs)"
      by (rule Cons.IH)
    ultimately show ?thesis by (simp add: Some reassemble_simps)
  qed
qed

lemma handleFileComplete_reassemble:
  assumes "receivingFiles cl fileId = Some fileInfo"
  shows "handleFileComplete fileId cl =
           Inr (cl\<lparr>downloads := downloads cl @
                    [\<lparr>dl_fileName = fileName fileInfo, dl_blob = reassemble (chunks fileInfo),
                      dl_type = mimeType fileInfo, dl_fileId = fileId\<rparr>],
                  receivingFiles := (receivingFiles cl)(fileId := None)\<rparr>)"
  using assms copy_chunks_reassemble[of "chunks fileInfo" "[]"]
  by (simp add: handleFileComplete_def totalSize_reassemble)

subsection \<open>Receiving a stream in order\<close>

lemma array_store_end: "array_store xs (length xs) v = xs @ [Some v]"
  by (simp add: array_store_def)

lemma client_step_chunk:
  assumes "receivingFiles cl fileId = Some fileInfo" and "atob dat = Inr bytes"
  shows "client_step (FileChunkMsg fileId chunkIndex dat isLast sender) cl =
           cl\<lparr>receivingFiles := (receivingFiles cl)(fileId \<mapsto>
                 fileInfo\<lparr>chunks := array_store (chunks fileInfo) chunkIndex bytes,
                          receivedSize := receivedSize fileInfo + length bytes\<rparr>)\<rparr>"
  using assms by (simp add: client_step_def handleFileChunk_def)

lemma client_step_complete:
  assumes "receivingFiles cl fileId = Some fileInfo"
  shows "client_step (FileCompleteMsg fileId sender) cl =
           cl\<lparr>downloads := downloads cl @
                    [\<lparr>dl_fileName = fileName fileInfo, dl_blob = reassemble (chunks fileInfo),
                      dl_type = mimeType fileInfo, dl_fileId = fileId\<rparr>],
                  receivingFiles := (receivingFiles cl)(fileId := None)\<rparr>"
  using assms by (simp add: client_step_def handleFileComplete_reassemble)

lemma receive_stream:
  assumes "receivingFiles cl fileId = Some fileInfo" and "length (chunks fileInfo) = chunkIndex"
  shows "client_run (map (\<lambda>m. the (forwarded sid m)) (sendNextChunk room fileId bytes offset chunkIndex)) cl =
           cl\<lparr>downloads := downloads cl @
                    [\<lparr>dl_fileName = fileName fileInfo,
                      dl_blob = reassemble (chunks fileInfo) @ drop offset bytes,
                      dl_type = mimeType fileInfo, dl_fileId = fileId\<rparr>],
                  receivingFiles := (receivingFiles cl)(fileId := None)\<rparr>"
  using assms
proof (induction room fileId bytes offset chunkIndex arbitrary: cl fileInfo rule: sendNextChunk.induct)
  case (1 room fileId bytes offset chunkIndex)
  let ?chunk = "take fileChunkSize (drop offset bytes)"
  let ?fi = "fileInfo\<lparr>chunks := chunks fileInfo @ [Some ?chunk],
                       receivedSize := receivedSize fileInfo + length ?chunk\<rparr>"
  let ?cl = "cl\<lparr>receivingFiles := (receivingFiles cl)(fileId \<mapsto> ?fi)\<rparr>"
  have step: "client_step (FileChunkMsg fileId chunkIndex (btoa ?chunk) isLast sid) cl = ?cl" for isLast
    using client_step_chunk[OF "1.prems"(1) atob_btoa[of ?chunk], of chunkIndex isLast sid]
      "1.prems"(2) array_store_end[of "chunks fileInfo" ?chunk]
    by simp
  show ?case
  proof (cases "offset + fileChunkSize < length bytes")
    case True
    have "client_run (map (\<lambda>m. the (forwarded sid m))
             (sendNextChunk room fileId bytes (offset + fileChunkSize) (chunkIndex + 1))) ?cl =
          ?cl\<lparr>downloads := downloads ?cl @
                    [\<lparr>dl_fileName = fileName ?fi,
                      dl_blob = reassemble (chunks ?fi) @ drop (offset + fileChunkSize) bytes,
                      dl_type = mimeType ?fi, dl_fileId = fileId\<rparr>],
                  receivingFiles := (receivingFiles ?cl)(fileId := None)\<rparr>"
      by (rule "1.IH"[OF refl refl refl True]) (simp_all add: "1.prems")
    moreover have "reassemble (chunks ?fi) @ drop (offset + fileChunkSize) bytes =
        reassemble (chunks fileInfo) @ drop offset bytes"
      by (simp add: reassemble_simps add.commute[of offset] flip: drop_drop)
    ultimately show ?thesis
      using True step
      by (subst sendNextChunk.simps) (simp add: Let_def client_run_def)
  next
    case False
    then have all: "?chunk = drop offset bytes" by simp
    have "client_step (FileCompleteMsg fileId sid) ?cl =
          ?cl\<lparr>downloads := downloads ?cl @
                    [\<lparr>dl_fileName = fileName ?fi, dl_blob = reassemble (chunks ?fi),
                      dl_type = mimeType ?fi, dl_fileId = fileId\<rparr>],
                  receivingFiles := (receivingFiles ?cl)(fileId := None)\<rparr>"
      by (rule client_step_complete) simp
    then show ?thesis
      using False step all
      by (subst sendNextChunk.simps) (simp add: Let_def client_run_def reassemble_simps)
  qed
qed

lemma sendFile_unfold:
  assumes "filesToSend cl name = Some f" and "connectedPeers cl \<noteq> []"
  shows "sendFile cl fileId name =
           FileInfo (currentRoom cl) fileId (file_name f) (length (file_bytes f)) (file_type f)
           # sendNextChunk (currentRoom cl) fileId (file_bytes f) 0 0"
  using assms by (simp add: sendFile_def)

text \<open>A file of 131082 bytes goes out as three chunks of 65536, 65536 and 10 bytes.\<close>

lemma three_chunk_scenario:
  assumes "length bytes = 131082"
  shows "sendNextChunk room fileId bytes 0 0 =
           [FileChunk room fileId 0 (btoa (take 65536 bytes)) False,
            FileChunk room fileId 1 (btoa (take 65536 (drop 65536 bytes))) False,
            FileChunk room fileId 2 (btoa (drop 131072 bytes)) True,
            FileComplete room fileId]"
    and "map length [take 65536 bytes, take 65536 (drop 65536 bytes), drop 131072 bytes] =
           [65536, 65536, 10]"
proof -
  have 3: "sendNextChunk room fileId bytes 131072 2 =
      [FileChunk room fileId 2 (btoa (drop 131072 bytes)) True, FileComplete room fileId]"
    using assms by (subst sendNextChunk.simps) (simp add: Let_def fileChunkSize_def)
  have 2: "sendNextChunk room fileId bytes 65536 1 =
      FileChunk room fileId 1 (btoa (take 65536 (drop 65536 bytes))) False
      # sendNextChunk room fileId bytes 131072 2"
    using assms by (subst sendNextChunk.simps) (simp add: Let_def fileChunkSize_def numeral_2_eq_2)
  have 1: "sendNextChunk room fileId bytes 0 0 =
      FileChunk room fileId 0 (btoa (take 65536 bytes)) False
      # sendNextChunk room fileId bytes 65536 1"
    using assms by (subst sendNextChunk.simps) (simp add: Let_def fileChunkSize_def)
  show "sendNextChunk room fileId bytes 0 0 =
           [FileChunk room fileId 0 (btoa (take 65536 bytes)) False,
            FileChunk room fileId 1 (btoa (take 65536 (drop 65536 bytes))) False,
            FileChunk room fileId 2 (btoa (drop 131072 bytes)) True,
            FileComplete room fileId]"
    by (simp only: 1 2 3)
  show "map length [take 65536 bytes, take 65536 (drop 65536 bytes), drop 131072 bytes] =
           [65536, 65536, 10]"
    using assms by simp
qed

text \<open>
  Claim C1. A client that has the file and a connected peer sends it with \<open>sendFile\<close>;
  the server relays the messages; a socket \<open>r\<close> other than the sender that is in the
  sender's room handles what it is delivered, from any state \<open>rcv\<close>. Then exactly one
  artifact is added to its downloads: it has the file's name and type, and its bytes
  are the bytes of the source file, so its length is the source file's size. This
  holds of the file of three chunks of \<open>three_chunk_scenario\<close> as of any other.
\<close>

theorem transfer_roundtrip:
  assumes "filesToSend cl name = Some f" and "connectedPeers cl \<noteq> []"
    and "(currentRoom cl, r) \<in> sio st" and "r \<noteq> sid"
  shows "client_run (deliveries r (relay now sid (sendFile cl fileId name) st)) rcv =
           rcv\<lparr>downloads := downloads rcv @
                    [\<lparr>dl_fileName = file_name f, dl_blob = file_bytes f,
                      dl_type = file_type f, dl_fileId = fileId\<rparr>],
                 receivingFiles := (receivingFiles rcv)(fileId := None)\<rparr> \<and>
         length (dl_blob (last (downloads
           (client_run (deliveries r (relay now sid (sendFile cl fileId name) st)) rcv)))) =
           length (file_bytes f)"
proof -
  let ?room = "currentRoom cl"
  let ?info = "FileInfo ?room fileId (file_name f) (length (file_bytes f)) (file_type f)"
  let ?stream = "sendNextChunk ?room fileId (file_bytes f) 0 0"
  let ?fi = "\<lparr>fileName = file_name f, fileSize = length (file_bytes f), mimeType = file_type f,
              chunks = [], receivedSize = 0\<rparr>"
  let ?rcv1 = "rcv\<lparr>receivingFiles := (receivingFiles rcv)(fileId \<mapsto> ?fi)\<rparr>"
  have sent: "sendFile cl fileId name = ?info # ?stream"
    using assms(1,2) by (rule sendFile_unfold)
  have "\<forall>m \<in> set (?info # ?stream). file_room m = Some ?room"
    using sendNextChunk_rooms[of ?room fileId "file_bytes f" 0 0] by simp
  from relay_file_events[OF this assms(3,4)]
  have del: "deliveries r (relay now sid (sendFile cl fileId name) st) =
      FileInfoMsg fileId (file_name f) (length (file_bytes f)) (file_type f) sid
      # map (\<lambda>m. the (forwarded sid m)) ?stream"
    by (simp add: sent)
  have info: "client_step (FileInfoMsg fileId (file_name f) (length (file_bytes f)) (file_type f) sid) rcv = ?rcv1"
    by (simp add: client_step_def handleFileInfo_def)
  have "client_run (map (\<lambda>m. the (forwarded sid m)) ?stream) ?rcv1 =
      ?rcv1\<lparr>downloads := downloads ?rcv1 @
                    [\<lparr>dl_fileName = fileName ?fi,
                      dl_blob = reassemble (chunks ?fi) @ drop 0 (file_bytes f),
                      dl_type = mimeType ?fi, dl_fileId = fileId\<rparr>],
                  receivingFiles := (receivingFiles ?rcv1)(fileId := None)\<rparr>"
    by (rule receive_stream) simp_all
  then have run: "client_run (deliveries r (relay now sid (sendFile cl fileId name) st)) rcv =
           rcv\<lparr>downloads := downloads rcv @
                    [\<lparr>dl_fileName = file_name f, dl_blob = file_bytes f,
                      dl_type = file_type f, dl_fileId = fileId\<rparr>],
                 receivingFiles := (receivingFiles rcv)(fileId := None)\<rparr>"
    unfolding del using info by (simp add: client_run_def reassemble_simps)
  show ?thesis unfolding run by simp
qed

theorem transfer_roundtrip_witness:
  "downloads (client_run (deliveries ''r''
      (relay 0 ''s''
        (sendFile \<lparr>currentRoom = ''ABC123'', connectedPeers = [''r''],
                    filesToSend = [''big'' \<mapsto>
                      \<lparr>file_name = ''big'', file_type = ''text/plain'', file_bytes = replicate 131082 7\<rparr>],
                    receivingFiles = Map.empty, downloads = []\<rparr> ''17'' ''big'')
        (init_state\<lparr>sio := {(''ABC123'', ''s''), (''ABC123'', ''r'')}\<rparr>)))
      \<lparr>currentRoom = ''ABC123'', connectedPeers = [''s''], filesToSend = Map.empty,
        receivingFiles = Map.empty, downloads = []\<rparr>) =
   [\<lparr>dl_fileName = ''big'', dl_blob = replicate 131082 7, dl_type = ''text/plain'', dl_fileId = ''17''\<rparr>] \<and>
   length (replicate 131082 (7 :: byte)) = 131082"
proof -
  let ?f = "\<lparr>file_name = ''big'', file_type = ''text/plain'', file_bytes = replicate 131082 (7 :: byte)\<rparr>"
  let ?cl = "\<lparr>currentRoom = ''ABC123'', connectedPeers = [''r''],
              filesToSend = [''big'' \<mapsto> ?f], receivingFiles = Map.empty, downloads = []\<rparr>"
  let ?st = "init_state\<lparr>sio := {(''ABC123'', ''s''), (''ABC123'', ''r'')}\<rparr>"
  have 1: "filesToSend ?cl ''big'' = Some ?f" by simp
  have 2: "connectedPeers ?cl \<noteq> []" by simp
  have 3: "(currentRoom ?cl, ''r'') \<in> sio ?st" by simp
  have 4: "''r'' \<noteq> ''s''" by simp
  from transfer_roundtrip[OF 1 2 3 4, of 0 "''17''"
      "\<lparr>currentRoom = ''ABC123'', connectedPeers = [''s''], filesToSend = Map.empty,
        receivingFiles = Map.empty, downloads = []\<rparr>"]
  show ?thesis by simp
qed

subsection \<open>Receiving chunks in any order\<close>

lemma length_array_store: "length (array_store xs i v) = max (length xs) (Suc i)"
  by (simp add: array_store_def)

lemma nth_array_store:
  assumes "k < max (length xs) (Suc i)"
  shows "array_store xs i v ! k = (if k = i then Some v else if k < length xs then xs ! k else None)"
proof (cases "i < length xs")
  case True
  with assms show ?thesis by (simp add: array_store_def nth_list_update)
next
  case False
  with assms have k: "k \<le> i" by simp
  show ?thesis
  proof (cases "k < length xs")
    case True
    with False show ?thesis by (simp add: array_store_def nth_append)
  next
    case out: False
    show ?thesis
    proof (cases "k = i")
      case True
      with False show ?thesis by (simp add: array_store_def nth_append)
    next
      case ne: False
      with k out have "k - length xs < i - length xs" by arith
      with False out ne show ?thesis by (simp add: array_store_def nth_append)
    qed
  qed
qed

lemma array_store_commute:
  assumes "i \<noteq> j"
  shows "array_store (array_store xs i a) j b = array_store (array_store xs j b) i a"
proof (rule nth_equalityI)
  show "length (array_store (array_store xs i a) j b) = length (array_store (array_store xs j b) i a)"
    by (simp add: length_array_store max.assoc max.commute max.left_commute)
next
  fix k assume "k < length (array_store (array_store xs i a) j b)"
  then have k: "k < max (max (length xs) (Suc i)) (Suc j)" by (simp add: length_array_store)
  then have k': "k < max (max (length xs) (Suc j)) (Suc i)" by (simp add: max.assoc max.commute max.left_commute)
  have inner_i: "k < max (length xs) (Suc i) \<Longrightarrow>
      array_store xs i a ! k = (if k = i then Some a else if k < length xs then xs ! k else None)"
    by (rule nth_array_store)
  have inner_j: "k < max (length xs) (Suc j) \<Longrightarrow>
      array_store xs j b ! k = (if k = j then Some b else if k < length xs then xs ! k else None)"
    by (rule nth_array_store)
  have l: "array_store (array_store xs i a) j b ! k =
      (if k = j then Some b else if k < max (length xs) (Suc i) then array_store xs i a ! k else None)"
    using nth_array_store[of k "array_store xs i a" j b] k by (simp add: length_array_store)
  have r: "array_store (array_store xs j b) i a ! k =
      (if k = i then Some a else if k < max (length xs) (Suc j) then array_store xs j b ! k else None)"
    using nth_array_store[of k "array_store xs j b" i a] k' by (simp add: length_array_store)
  show "array_store (array_store xs i a) j b ! k = array_store (array_store xs j b) i a ! k"
    unfolding l r using assms inner_i inner_j by (auto simp: less_max_iff_disj)
qed

lemma client_step_chunk_cases:
  "client_step (FileChunkMsg fileId chunkIndex dat isLast sender) cl =
     (case receivingFiles cl fileId of
        None \<Rightarrow> cl
      | Some fileInfo \<Rightarrow>
          (case atob dat of
             Inl e \<Rightarrow> cl
           | Inr bytes \<Rightarrow>
               cl\<lparr>receivingFiles := (receivingFiles cl)(fileId \<mapsto>
                     fileInfo\<lparr>chunks := array_store (chunks fileInfo) chunkIndex bytes,
                              receivedSize := receivedSize fileInfo + length bytes\<rparr>)\<rparr>))"
  by (simp add: client_step_def handleFileChunk_def split: option.splits sum.splits)

lemma client_step_chunks_commute:
  assumes "chunk_key m1 = Some k1" "chunk_key m2 = Some k2" "k1 \<noteq> k2"
  shows "client_step m1 (client_step m2 cl) = client_step m2 (client_step m1 cl)"
proof -
  obtain f1 i1 d1 l1 s1 where m1: "m1 = FileChunkMsg f1 i1 d1 l1 s1" and k1: "k1 = (f1, i1)"
    using assms(1) by (cases m1) auto
  obtain f2 i2 d2 l2 s2 where m2: "m2 = FileChunkMsg f2 i2 d2 l2 s2" and k2: "k2 = (f2, i2)"
    using assms(2) by (cases m2) auto
  show ?thesis
  proof (cases "f1 = f2")
    case True
    with assms(3) k1 k2 have ne: "i1 \<noteq> i2" by simp
    show ?thesis
      unfolding m1 m2 True
      by (simp add: client_step_chunk_cases array_store_commute[OF ne] add.commute add.left_commute
          split: option.splits sum.splits)
  next
    case False
    then show ?thesis
      unfolding m1 m2
      by (auto simp add: client_step_chunk_cases fun_upd_twist split: option.splits sum.splits)
  qed
qed

lemma client_run_permuted:
  assumes keys: "\<forall>m \<in> set ms. chunk_key m \<noteq> None"
    and dist: "distinct (map chunk_key ms)"
    and perm: "mset ms' = mset ms"
  shows "client_run ms' cl = client_run ms cl"
proof -
  have comm: "client_step x \<circ> client_step y = client_step y \<circ> client_step x"
    if "x \<in> set ms" "y \<in> set ms" for x y
  proof (cases "x = y")
    case True
    then show ?thesis by simp
  next
    case False
    from that keys have "chunk_key x \<noteq> None" "chunk_key y \<noteq> None" by blast+
    then obtain kx ky where kx: "chunk_key x = Some kx" and ky: "chunk_key y = Some ky"
      by blast
    from dist that False have "chunk_key x \<noteq> chunk_key y"
      by (meson distinct_map inj_onD)
    with kx ky have "kx \<noteq> ky" by simp
    from client_step_chunks_commute[OF kx ky this] show ?thesis by (auto simp: fun_eq_iff)
  qed
  have "fold client_step ms = fold client_step ms'"
    by (rule fold_multiset_equiv) (use comm perm in auto)
  then show ?thesis by (simp add: client_run_def)
qed

text \<open>
  Claim C2. Chunk messages for pairwise different (transfer, index) pairs, as the
  chunks of one transfer are, leave the receiver in the same state in whatever order
  they arrive; so the artifact built when the completion message then arrives is the
  same.
\<close>

theorem chunk_order_irrelevant:
  assumes "\<forall>m \<in> set ms. chunk_key m \<noteq> None"
    and "distinct (map chunk_key ms)"
    and "mset ms' = mset ms"
  shows "client_run ms' cl = client_run ms cl \<and>
         downloads (client_run (ms' @ [FileCompleteMsg fileId sender]) cl) =
         downloads (client_run (ms @ [FileCompleteMsg fileId sender]) cl)"
  using client_run_permuted[OF assms, of cl] by (simp add: client_run_def)

theorem chunk_order_irrelevant_witness:
  "client_run [FileChunkMsg ''17'' 0 ''SGk='' False ''s'', FileChunkMsg ''17'' 2 ''IQ=='' True ''s'',
               FileChunkMsg ''17'' 1 ''QUJD'' False ''s'']
     \<lparr>currentRoom = ''ABC123'', connectedPeers = [''s''], filesToSend = Map.empty,
       receivingFiles = [''17'' \<mapsto> \<lparr>fileName = ''a.txt'', fileSize = 6, mimeType = ''text/plain'',
                                    chunks = [], receivedSize = 0\<rparr>],
       downloads = []\<rparr> =
   client_run [FileChunkMsg ''17'' 0 ''SGk='' False ''s'', FileChunkMsg ''17'' 1 ''QUJD'' False ''s'',
               FileChunkMsg ''17'' 2 ''IQ=='' True ''s'']
     \<lparr>currentRoom = ''ABC123'', connectedPeers = [''s''], filesToSend = Map.empty,
       receivingFiles = [''17'' \<mapsto> \<lparr>fileName = ''a.txt'', fileSize = 6, mimeType = ''text/plain'',
                                    chunks = [], receivedSize = 0\<rparr>],
       downloads = []\<rparr>"
proof -
  let ?ms = "[FileChunkMsg ''17'' 0 ''SGk='' False ''s'', FileChunkMsg ''17'' 1 ''QUJD'' False ''s'',
               FileChunkMsg ''17'' 2 ''IQ=='' True ''s'']"
  let ?ms' = "[FileChunkMsg ''17'' 0 ''SGk='' False ''s'', FileChunkMsg ''17'' 2 ''IQ=='' True ''s'',
               FileChunkMsg ''17'' 1 ''QUJD'' False ''s'']"
  have 1: "\<forall>m \<in> set ?ms. chunk_key m \<noteq> None" by simp
  have 2: "distinct (map chunk_key ?ms)" by simp
  have 3: "mset ?ms' = mset ?ms" by simp
  from chunk_order_irrelevant[OF 1 2 3] show ?thesis by blast
qed

subsection \<open>The last-chunk flag\<close>

lemma map_upt_shift: "map f [0..<Suc k] = f 0 # map (\<lambda>i. f (Suc i)) [0..<k]"
  by (simp add: upt_conv_Cons map_Suc_upt[symmetric] del: upt_Suc)

lemma sendNextChunk_flags:
  "chunk_flags (sendNextChunk room fileId bytes offset chunkIndex) =
     map (\<lambda>i. (chunkIndex + i, offset + i * fileChunkSize + fileChunkSize \<ge> length bytes))
       [0..<Suc ((length bytes - Suc offset) div fileChunkSize)]"
proof (induction room fileId bytes offset chunkIndex rule: sendNextChunk.induct)
  case (1 room fileId bytes offset chunkIndex)
  let ?n = "length bytes"
  let ?k = "\<lambda>off. Suc ((?n - Suc off) div fileChunkSize)"
  have pos: "0 < fileChunkSize" by (simp add: fileChunkSize_def)
  show ?case
  proof (cases "offset + fileChunkSize < ?n")
    case True
    then have "?n - Suc offset = (?n - Suc (offset + fileChunkSize)) + fileChunkSize" by arith
    then have "(?n - Suc offset) div fileChunkSize =
        ((?n - Suc (offset + fileChunkSize)) + fileChunkSize) div fileChunkSize"
      by (rule arg_cong)
    also have "\<dots> = Suc ((?n - Suc (offset + fileChunkSize)) div fileChunkSize)"
      using pos by (simp only: div_add_self2 Suc_eq_plus1)
    finally have "(?n - Suc offset) div fileChunkSize =
        Suc ((?n - Suc (offset + fileChunkSize)) div fileChunkSize)" .
    then have k: "?k offset = Suc (?k (offset + fileChunkSize))" by simp
    have "chunk_flags (sendNextChunk room fileId bytes offset chunkIndex) =
          (chunkIndex, False) #
          chunk_flags (sendNextChunk room fileId bytes (offset + fileChunkSize) (chunkIndex + 1))"
      using True by (subst sendNextChunk.simps) (simp add: Let_def)
    also have "\<dots> = (chunkIndex, False) #
        map (\<lambda>i. (chunkIndex + 1 + i, offset + fileChunkSize + i * fileChunkSize + fileChunkSize \<ge> ?n))
          [0..<?k (offset + fileChunkSize)]"
      using "1.IH"[OF refl refl refl True] by simp
    also have "\<dots> = map (\<lambda>i. (chunkIndex + i, offset + i * fileChunkSize + fileChunkSize \<ge> ?n))
          [0..<Suc (?k (offset + fileChunkSize))]"
      using True by (simp add: map_upt_shift add_ac del: upt_Suc)
    finally show ?thesis unfolding k .
  next
    case False
    then have "?n - Suc offset < fileChunkSize" using pos by arith
    then have "?k offset = 1" by simp
    moreover have "chunk_flags (sendNextChunk room fileId bytes offset chunkIndex) = [(chunkIndex, True)]"
      using False by (subst sendNextChunk.simps) (simp add: Let_def)
    ultimately show ?thesis using False by simp
  qed
qed

lemma ceil_div:
  fixes m c :: nat
  assumes "0 < c" "0 < m"
  shows "(m + c - 1) div c = Suc ((m - 1) div c)"
proof -
  from assms have "m + c - 1 = (m - 1) + c" by arith
  then have "(m + c - 1) div c = ((m - 1) + c) div c" by (rule arg_cong)
  also have "\<dots> = (m - 1) div c + 1"
    using assms(1) by (simp only: div_add_self2)
  finally show ?thesis by (simp only: Suc_eq_plus1)
qed

lemma last_chunk_only:
  fixes n c i :: nat
  assumes "0 < c" "0 < n" "i \<le> (n - 1) div c"
  shows "(n \<le> i * c + c) \<longleftrightarrow> i = (n - 1) div c"
proof -
  define x where "x = Suc i * c"
  have x: "i * c + c = x" by (simp add: x_def)
  have "(n \<le> x) \<longleftrightarrow> n - 1 < x"
    using assms(2) by arith
  also have "\<dots> \<longleftrightarrow> (n - 1) div c < Suc i"
    unfolding x_def using assms(1) by (simp only: div_less_iff_less_mult)
  also have "\<dots> \<longleftrightarrow> i = (n - 1) div c"
    using assms(3) by arith
  finally show ?thesis unfolding x .
qed

text \<open>
  Claim C7. For a non-empty file of \<open>n\<close> bytes the sender emits the chunks with the
  indices \<open>0, \<dots>, k - 1\<close> in this order, where \<open>k\<close> is \<open>n / 65536\<close> rounded up, and the
  chunk with index \<open>i\<close> carries \<open>isLast = (i * 65536 + 65536 \<ge> n)\<close>, which is true
  for \<open>i = k - 1\<close> and for no smaller index.
\<close>

theorem isLast_final_chunk_only:
  assumes "filesToSend cl name = Some f" and "connectedPeers cl \<noteq> []"
    and "0 < length (file_bytes f)"
  shows "chunk_flags (sendFile cl fileId name) =
           map (\<lambda>i. (i, i * 65536 + 65536 \<ge> length (file_bytes f)))
             [0..<(length (file_bytes f) + 65535) div 65536] \<and>
         (\<forall>i < (length (file_bytes f) + 65535) div 65536.
            (i * 65536 + 65536 \<ge> length (file_bytes f)) \<longleftrightarrow>
            i = (length (file_bytes f) + 65535) div 65536 - 1)"
proof -
  let ?n = "length (file_bytes f)"
  have k: "(?n + 65535) div 65536 = Suc ((?n - 1) div 65536)"
    using ceil_div[of 65536 ?n] assms(3) by simp
  have "chunk_flags (sendFile cl fileId name) =
      chunk_flags (sendNextChunk (currentRoom cl) fileId (file_bytes f) 0 0)"
    by (simp add: sendFile_unfold[OF assms(1,2)])
  also have "\<dots> = map (\<lambda>i. (i, i * 65536 + 65536 \<ge> ?n)) [0..<Suc ((?n - 1) div 65536)]"
    by (simp add: sendNextChunk_flags fileChunkSize_def del: upt_Suc)
  finally have flags: "chunk_flags (sendFile cl fileId name) =
      map (\<lambda>i. (i, i * 65536 + 65536 \<ge> ?n)) [0..<(?n + 65535) div 65536]"
    unfolding k .
  have "(i * 65536 + 65536 \<ge> ?n) \<longleftrightarrow> i = (?n + 65535) div 65536 - 1"
    if "i < (?n + 65535) div 65536" for i
    using last_chunk_only[of 65536 ?n i] that assms(3) unfolding k by simp
  with flags show ?thesis by blast
qed

theorem isLast_final_chunk_only_witness:
  "chunk_flags (sendFile \<lparr>currentRoom = ''ABC123'', connectedPeers = [''r''],
                    filesToSend = [''big'' \<mapsto>
                      \<lparr>file_name = ''big'', file_type = [], file_bytes = replicate 131082 0\<rparr>],
                    receivingFiles = Map.empty, downloads = []\<rparr> ''17'' ''big'') =
     [(0, False), (1, False), (2, True)]"
proof -
  let ?f = "\<lparr>file_name = ''big'', file_type = [], file_bytes = replicate 131082 (0 :: byte)\<rparr>"
  let ?cl = "\<lparr>currentRoom = ''ABC123'', connectedPeers = [''r''],
              filesToSend = [''big'' \<mapsto> ?f], receivingFiles = Map.empty, downloads = []\<rparr>"
  have 1: "filesToSend ?cl ''big'' = Some ?f" by simp
  have 2: "connectedPeers ?cl \<noteq> []" by simp
  have 3: "0 < length (file_bytes ?f)" by simp
  have "[0..<3] = [0, 1, Suc (Suc 0)]" by (simp add: upt_rec numeral_3_eq_3)
  with isLast_final_chunk_only[OF 1 2 3, of "''17''"]
  show ?thesis by simp
qed

section \<open>Properties of the HTTP surface\<close>

text \<open>
  \<open>server.js\<close> as it is answers \<open>GET /health\<close> with 404 when \<open>public/\<close> holds the
  client's files only, and never with the health report.
\<close>

theorem health_not_served_by_server_js:
  "server_get {''/index.html'', ''/app-fast.js''} init_state
     \<lparr>uptime_seconds = (12 :: nat), heapUsed = 52428800\<rparr> ''/health'' = NotFound"
  by (simp add: server_get_def)

lemma server_get_never_json: "server_get public st env path \<noteq> Json body"
  by (simp add: server_get_def)

lemma math_round_quotient_near:
  assumes "0 < q"
  shows "2 * (math_round_quotient p q * q) \<le> 2 * p + q \<and> 2 * p < 2 * (math_round_quotient p q * q) + q"
proof -
  let ?n = "(2 * p + q) div (2 * q)"
  have "?n * (2 * q) \<le> 2 * p + q" by (rule div_times_less_eq_dividend)
  moreover have "2 * p + q < 2 * q + ?n * (2 * q)"
    using assms by (intro dividend_less_div_times) simp
  ultimately show ?thesis by (simp add: math_round_quotient_def algebra_simps)
qed

text \<open>
  Claim C9. With the snippet added to \<open>server.js\<close>, and no file named
  \<open>health\<close> in \<open>public/\<close>, every \<open>GET /health\<close> is answered with status 200 and the JSON
  body of the three fields \<open>status = "healthy"\<close>, \<open>uptime\<close>, the process uptime, and
  \<open>memory\<close>, the heap in use rounded to the nearest MiB and followed by \<open>MB\<close>; the
  answer is the same in every state of the relay.
\<close>

theorem health_snippet_response:
  assumes "''/health'' \<notin> public"
  shows "server_get_with_health public st env ''/health'' =
           Json \<lparr>status = ''healthy'', uptime = uptime_seconds env,
                 memory = decimal (math_round_quotient (heapUsed env) 1048576) @ ''MB''\<rparr> \<and>
         status_code (server_get_with_health public st env ''/health'') = 200 \<and>
         2 * (math_round_quotient (heapUsed env) 1048576 * 1048576) \<le> 2 * heapUsed env + 1048576 \<and>
         2 * heapUsed env < 2 * (math_round_quotient (heapUsed env) 1048576 * 1048576) + 1048576 \<and>
         server_get_with_health public st' env ''/health'' = server_get_with_health public st env ''/health''"
proof -
  have "server_get_with_health public s env ''/health'' =
           Json \<lparr>status = ''healthy'', uptime = uptime_seconds env,
                 memory = decimal (math_round_quotient (heapUsed env) 1048576) @ ''MB''\<rparr>" for s
    using assms by (simp add: server_get_with_health_def health_def)
  then show ?thesis
    using math_round_quotient_near[of 1048576 "heapUsed env"] by simp
qed

theorem health_snippet_response_witness:
  "server_get_with_health {''/index.html'', ''/app-fast.js''} init_state
     \<lparr>uptime_seconds = (12 :: nat), heapUsed = 1572864\<rparr> ''/health'' =
     Json \<lparr>status = ''healthy'', uptime = 12, memory = ''2MB''\<rparr>"
proof -
  have h: "''/health'' \<notin> {''/index.html'', ''/app-fast.js''}" by simp
  have "math_round_quotient 1572864 1048576 = 2" by (simp add: math_round_quotient_def)
  moreover have "decimal 2 = ''2''" by (simp add: decimal.simps)
  ultimately show ?thesis
    using health_snippet_response[OF h, of init_state "\<lparr>uptime_seconds = (12 :: nat), heapUsed = 1572864\<rparr>"]
    by simp
qed

end
